theory Spec2Isabelle
  imports Main "HOL-Library.AList"
begin

section \<open>Data model\<close>

text \<open>
  The demo backend of pymap (\<^verbatim>\<open>src/pymap/demo/session.py\<close>) works on a process-wide
  registry \<^verbatim>\<open>State.mailboxes\<close> (name to shared mailbox state), on the selected-mailbox
  objects registered with each mailbox, and on per-session read views (\<^verbatim>\<open>Mailbox\<close>).
  The classes \<^verbatim>\<open>State\<close>, \<^verbatim>\<open>Message\<close>, \<^verbatim>\<open>SelectedMailbox\<close> and \<^verbatim>\<open>Mailbox\<close> live in
  modules that are not part of the sources at hand; their fields are taken from the way
  \<^verbatim>\<open>session.py\<close> reads and writes them, their methods are modelled from the
  specification and marked as such.
\<close>

datatype flag = Seen | Answered | Flagged | Deleted | Draft | Recent | Keyword string

datatype flag_op = REPLACE | ADD | REMOVE

datatype error =
    MailboxNotFound string
  | MailboxConflict string
  | MailboxHasChildren string
  | KeyError string
  | IndexError
  | ValueError string
  | NotParseable string
  | InvalidContent string

record message =
  uid :: nat
  contents :: string
  internal_date :: int
  persistent_flags :: "flag set"

datatype update = Exists nat | RecentCount nat | Expunge nat | Fetch nat "flag set"

text \<open>
  A \<^verbatim>\<open>SelectedMailbox\<close> object. Objects are shared between the connection that owns
  them and the registry \<^verbatim>\<open>sessions\<close> of the mailbox, so they live in a store indexed by
  an object identity (a natural number); \<^verbatim>\<open>session != selected\<close> compares identities.
\<close>

record selected_mailbox =
  sel_name :: string
  sel_readonly :: bool
  session_flags :: "nat \<Rightarrow> flag set"
  pending :: "update list"
  updated :: bool

text \<open>The shared per-name state, one entry of \<^verbatim>\<open>State.mailboxes\<close>.\<close>

record mailbox_state =
  next_uid :: nat
  uid_validity :: nat
  messages :: "message list"
  recent :: "nat set"
  sessions :: "nat list"
  subscribed :: bool

text \<open>
  The per-session view \<^verbatim>\<open>Mailbox\<close> kept in \<^verbatim>\<open>self.mailboxes\<close>. Its attributes are
  fields: the view is built by code that is not at hand, so nothing ties them to each
  other or to the shared state unless a theorem assumes it.
\<close>

record mailbox =
  mbx_messages :: "message list"
  mbx_exists :: nat
  mbx_highest_uid :: nat
  mbx_uid_to_idx :: "nat \<rightharpoonup> nat"
  mbx_uid_validity :: nat
  permanent_flags :: "flag set"

text \<open>
  A \<^verbatim>\<open>SequenceSet\<close>: the flag \<^verbatim>\<open>uid\<close> and the expansion \<^verbatim>\<open>iter(upper_bound)\<close>, the
  latter a parameter (the class is not among the sources).
\<close>

record sequence_set =
  seq_uid :: bool
  seq_iter :: "nat \<Rightarrow> nat list"

record state =
  mailboxes :: "string \<rightharpoonup> mailbox_state"
  selected_objs :: "nat \<Rightarrow> selected_mailbox"

section \<open>Helpers of absent classes\<close>

text \<open>
  Modelled from the spec: \<^verbatim>\<open>Message.get_flags(selected)\<close> is absent from the sources;
  the spec (4.2) gives it as the union of the session overlay for this UID and the
  persistent flags attached to the message.
\<close>

definition get_flags :: "message \<Rightarrow> selected_mailbox \<Rightarrow> flag set" where
  "get_flags msg selected = persistent_flags msg \<union> session_flags selected (uid msg)"

text \<open>
  Modelled from the spec: \<^verbatim>\<open>SelectedMailbox.add_message\<close>, \<^verbatim>\<open>remove_message\<close> and
  \<^verbatim>\<open>add_fetch\<close> are absent from the sources; the spec (4.3, 4.4) has them enqueue the
  corresponding update (\<^verbatim>\<open>Exists\<close> and \<^verbatim>\<open>Fetch(seq, flags)\<close> for an added message,
  \<^verbatim>\<open>Expunge(seq)\<close> for a removed one, \<^verbatim>\<open>Fetch(seq, flags)\<close> for a flag change) and
  set \<^verbatim>\<open>updated\<close>.
\<close>

definition add_message :: "nat \<Rightarrow> nat \<Rightarrow> flag set \<Rightarrow> selected_mailbox \<Rightarrow> selected_mailbox" where
  "add_message msg_seq msg_uid flag_set session =
     session\<lparr>pending := pending session @ [Exists msg_seq, Fetch msg_seq flag_set],
             updated := True\<rparr>"

definition remove_message :: "nat \<Rightarrow> nat \<Rightarrow> selected_mailbox \<Rightarrow> selected_mailbox" where
  "remove_message msg_seq msg_uid session =
     session\<lparr>pending := pending session @ [Expunge msg_seq], updated := True\<rparr>"

definition add_fetch :: "nat \<Rightarrow> flag set \<Rightarrow> selected_mailbox \<Rightarrow> selected_mailbox" where
  "add_fetch msg_seq msg_flags session =
     session\<lparr>pending := pending session @ [Fetch msg_seq msg_flags], updated := True\<rparr>"

text \<open>
  Modelled from the spec: \<^verbatim>\<open>session_flags.add_recent(uid)\<close> is absent from the sources;
  the spec (3) has the overlay hold the Recent claims of the session, by UID.
\<close>

definition add_recent :: "nat \<Rightarrow> selected_mailbox \<Rightarrow> selected_mailbox" where
  "add_recent msg_uid session =
     session\<lparr>session_flags := (session_flags session)(msg_uid := insert Recent (session_flags session msg_uid))\<rparr>"

text \<open>\<^verbatim>\<open>session.updated.set()\<close>: the event of the object is set.\<close>

definition updated_set :: "selected_mailbox \<Rightarrow> selected_mailbox" where
  "updated_set session = session\<lparr>updated := True\<rparr>"

text \<open>
  Modelled from the spec: \<^verbatim>\<open>Mailbox.update_flags(selected, msg, flag_set, mode)\<close> is
  absent from the sources; the spec (4.6) applies the operation to the persistent flags,
  with the given flags cut down to the permanent flags of the mailbox. The result is the
  message with its new flags; the Python method mutates the message and returns them.
\<close>

definition mailbox_update_flags :: "mailbox \<Rightarrow> message \<Rightarrow> flag set \<Rightarrow> flag_op \<Rightarrow> message" where
  "mailbox_update_flags mbx msg flag_set mode =
     (let fs = flag_set \<inter> permanent_flags mbx in
      msg\<lparr>persistent_flags :=
        (case mode of
           REPLACE \<Rightarrow> fs
         | ADD \<Rightarrow> persistent_flags msg \<union> fs
         | REMOVE \<Rightarrow> persistent_flags msg - fs)\<rparr>)"

text \<open>
  \<^verbatim>\<open>Message.parse(uid, data, flags, internal_date=when)\<close> and the constructor
  \<^verbatim>\<open>Message(uid, contents, internal_date=...)\<close>: the message body is opaque here.
\<close>

definition message_parse :: "nat \<Rightarrow> string \<Rightarrow> flag set \<Rightarrow> int \<Rightarrow> message" where
  "message_parse msg_uid data flag_set when =
     \<lparr>uid = msg_uid, contents = data, internal_date = when, persistent_flags = flag_set\<rparr>"

definition Message :: "nat \<Rightarrow> string \<Rightarrow> int \<Rightarrow> message" where
  "Message msg_uid data when =
     \<lparr>uid = msg_uid, contents = data, internal_date = when, persistent_flags = {}\<rparr>"

text \<open>
  Python indexing \<^verbatim>\<open>xs[i]\<close>: a negative index counts from the end, anything outside
  the list raises \<^verbatim>\<open>IndexError\<close>.
\<close>

definition py_getitem :: "'a list \<Rightarrow> int \<Rightarrow> error + 'a" where
  "py_getitem xs i =
     (if 0 \<le> i \<and> i < int (length xs) then Inr (xs ! nat i)
      else if i < 0 \<and> - int (length xs) \<le> i then Inr (xs ! nat (int (length xs) + i))
      else Inl IndexError)"

text \<open>The slice deletion \<^verbatim>\<open>xs[i:i + 1] = []\<close>; out of range it leaves the list as it is.\<close>

definition del_slice :: "nat \<Rightarrow> 'a list \<Rightarrow> 'a list" where
  "del_slice i xs = take i xs @ drop (i + 1) xs"

text \<open>
  A loop \<^verbatim>\<open>for session in sessions: ...\<close> whose body mutates the session object only:
  the store is updated at each registered identity in turn.
\<close>

definition for_each_session ::
  "(nat \<Rightarrow> selected_mailbox \<Rightarrow> selected_mailbox) \<Rightarrow> nat list \<Rightarrow> (nat \<Rightarrow> selected_mailbox) \<Rightarrow> (nat \<Rightarrow> selected_mailbox)" where
  "for_each_session body sids objs = fold (\<lambda>sid h. h(sid := body sid (h sid))) sids objs"

section \<open>Session: private helpers\<close>

definition get_updates :: "state \<Rightarrow> nat option \<Rightarrow> nat option" where
  "get_updates s selected =
     (case selected of
        None \<Rightarrow> None
      | Some sid \<Rightarrow>
          if mailboxes s (sel_name (selected_objs s sid)) \<noteq> None then Some sid else None)"

definition check_selected :: "(string \<rightharpoonup> mailbox) \<Rightarrow> state \<Rightarrow> nat \<Rightarrow> error + mailbox \<times> nat" where
  "check_selected self_mailboxes s selected =
     (let name = sel_name (selected_objs s selected) in
      if mailboxes s name = None then Inl (MailboxNotFound name)
      else (case self_mailboxes name of
              None \<Rightarrow> Inl (KeyError name)
            | Some mbx \<Rightarrow> Inr (mbx, selected)))"

text \<open>
  \<^verbatim>\<open>Mailbox.load(name, True)\<close> is a parameter \<open>load\<close>: it builds the view of a mailbox
  the session has not selected; the selected-mailbox object it returns beside the view
  is dropped by \<^verbatim>\<open>_get_mailbox\<close>.
\<close>

definition get_mailbox ::
  "(string \<Rightarrow> state \<Rightarrow> mailbox) \<Rightarrow> (string \<rightharpoonup> mailbox) \<Rightarrow> string \<Rightarrow> nat option \<Rightarrow> state
     \<Rightarrow> error + mailbox \<times> nat option" where
  "get_mailbox load self_mailboxes name selected s =
     (if mailboxes s name = None then Inl (MailboxNotFound name)
      else (case self_mailboxes name of
              Some mbx \<Rightarrow> Inr (mbx, get_updates s selected)
            | None \<Rightarrow> Inr (load name s, get_updates s selected)))"

fun iter_by_uid :: "mailbox \<Rightarrow> nat list \<Rightarrow> (nat \<times> message) list \<times> error option" where
  "iter_by_uid mbx [] = ([], None)"
| "iter_by_uid mbx (msg_uid # rest) =
     (case mbx_uid_to_idx mbx msg_uid of
        None \<Rightarrow> iter_by_uid mbx rest
      | Some msg_idx \<Rightarrow>
          (case py_getitem (mbx_messages mbx) (int msg_idx) of
             Inl e \<Rightarrow> ([], Some e)
           | Inr msg \<Rightarrow>
               (case iter_by_uid mbx rest of (ys, e) \<Rightarrow> ((msg_idx + 1, msg) # ys, e))))"

fun iter_by_seq :: "mailbox \<Rightarrow> nat list \<Rightarrow> (nat \<times> message) list \<times> error option" where
  "iter_by_seq mbx [] = ([], None)"
| "iter_by_seq mbx (msg_seq # rest) =
     (case py_getitem (mbx_messages mbx) (int msg_seq - 1) of
        Inl e \<Rightarrow> ([], Some e)
      | Inr msg \<Rightarrow>
          (case iter_by_seq mbx rest of (ys, e) \<Rightarrow> ((msg_seq, msg) # ys, e)))"

text \<open>
  The generator \<^verbatim>\<open>_iter_messages\<close>: the pairs it yields, and the exception that ends
  it early when an index is out of range (the callers consume it lazily, so the pairs
  yielded before the exception have been processed when it is raised).
\<close>

definition iter_messages :: "mailbox \<Rightarrow> sequence_set \<Rightarrow> (nat \<times> message) list \<times> error option" where
  "iter_messages mbx sequences =
     (if mbx_messages mbx = [] then ([], None)
      else if seq_uid sequences then iter_by_uid mbx (seq_iter sequences (mbx_highest_uid mbx))
      else iter_by_seq mbx (seq_iter sequences (mbx_exists mbx)))"

section \<open>Session: mailbox lifecycle\<close>

definition delete_mailbox ::
  "(string \<rightharpoonup> mailbox) \<Rightarrow> string \<Rightarrow> nat option \<Rightarrow> state
     \<Rightarrow> (state \<times> (string \<rightharpoonup> mailbox)) \<times> (error + nat option)" where
  "delete_mailbox self_mailboxes name selected s =
     (if mailboxes s name = None then ((s, self_mailboxes), Inl (MailboxNotFound name))
      else
        (let s' = s\<lparr>mailboxes := (mailboxes s)(name := None)\<rparr>;
             self_mailboxes' = self_mailboxes(name := None)
         in ((s', self_mailboxes'), Inr (get_updates s' selected))))"

definition rename_mailbox :: "string \<Rightarrow> string \<Rightarrow> nat option \<Rightarrow> state \<Rightarrow> state \<times> (error + nat option)" where
  "rename_mailbox before_name after_name selected s =
     (if mailboxes s after_name \<noteq> None then (s, Inl (MailboxConflict after_name))
      else (case mailboxes s before_name of
              None \<Rightarrow> (s, Inl (MailboxNotFound before_name))
            | Some m \<Rightarrow>
                (let s' = s\<lparr>mailboxes := ((mailboxes s)(after_name \<mapsto> m))(before_name := None)\<rparr>
                 in (s', Inr (get_updates s' selected)))))"

text \<open>
  \<^verbatim>\<open>create_mailbox\<close> makes the entry by looking the name up in \<^verbatim>\<open>State.mailboxes\<close>,
  whose default factory is not among the sources: the state it builds is the
  parameter \<open>fresh\<close>.
\<close>

definition create_mailbox :: "mailbox_state \<Rightarrow> string \<Rightarrow> nat option \<Rightarrow> state \<Rightarrow> state \<times> (error + nat option)" where
  "create_mailbox fresh name selected s =
     (if mailboxes s name \<noteq> None then (s, Inl (MailboxConflict name))
      else
        (let s' = s\<lparr>mailboxes := (mailboxes s)(name \<mapsto> fresh)\<rparr>
         in (s', Inr (get_updates s' selected))))"

definition subscribe :: "string \<Rightarrow> nat option \<Rightarrow> state \<Rightarrow> state \<times> (error + nat option)" where
  "subscribe name selected s =
     (case mailboxes s name of
        None \<Rightarrow> (s, Inl (MailboxNotFound name))
      | Some m \<Rightarrow>
          (let s' = s\<lparr>mailboxes := (mailboxes s)(name \<mapsto> m\<lparr>subscribed := True\<rparr>)\<rparr>
           in (s', Inr (get_updates s' selected))))"

definition unsubscribe :: "string \<Rightarrow> nat option \<Rightarrow> state \<Rightarrow> state \<times> (error + nat option)" where
  "unsubscribe name selected s =
     (case mailboxes s name of
        None \<Rightarrow> (s, Inl (MailboxNotFound name))
      | Some m \<Rightarrow>
          (let s' = s\<lparr>mailboxes := (mailboxes s)(name \<mapsto> m\<lparr>subscribed := False\<rparr>)\<rparr>
           in (s', Inr (get_updates s' selected))))"

section \<open>Session: message operations\<close>

text \<open>\<^verbatim>\<open>_increment_next_uid\<close>: hands out the current \<^verbatim>\<open>next_uid\<close> and adds one to it.\<close>

definition increment_next_uid :: "mailbox_state \<Rightarrow> nat \<times> mailbox_state" where
  "increment_next_uid m = (next_uid m, m\<lparr>next_uid := next_uid m + 1\<rparr>)"

text \<open>
  One round of the loop of \<^verbatim>\<open>append_messages\<close>, on the shared state of the mailbox,
  the store of selected-mailbox objects and the list \<^verbatim>\<open>msg_uids\<close>. An element of
  \<^verbatim>\<open>messages\<close> is a 4-tuple whose last component is not used.
\<close>

definition append_step ::
  "mailbox \<Rightarrow> string \<times> flag set \<times> int \<times> 'o
     \<Rightarrow> mailbox_state \<times> (nat \<Rightarrow> selected_mailbox) \<times> nat list
     \<Rightarrow> mailbox_state \<times> (nat \<Rightarrow> selected_mailbox) \<times> nat list" where
  "append_step mbx am acc =
     (case am of (message, flag_set, when, _) \<Rightarrow>
      case acc of (m, objs, msg_uids) \<Rightarrow>
        (let (msg_uid, m1) = increment_next_uid m;
             msg = message_parse msg_uid message (flag_set \<inter> permanent_flags mbx) when;
             m2 = m1\<lparr>messages := messages m1 @ [msg]\<rparr>;
             msg_seq = length (messages m2)
         in if sessions m2 \<noteq> []
            then (m2,
                  for_each_session
                    (\<lambda>_ session. updated_set (add_message msg_seq msg_uid flag_set session))
                    (sessions m2) objs,
                  msg_uids @ [msg_uid])
            else (m2\<lparr>recent := insert msg_uid (recent m2)\<rparr>, objs, msg_uids @ [msg_uid])))"

text \<open>
  \<^verbatim>\<open>append_messages\<close>. The result is \<^verbatim>\<open>AppendUid(uid_validity, msg_uids)\<close> as a pair,
  with the selection to poll. The lookup \<^verbatim>\<open>State.mailboxes[name]\<close> cannot miss after
  \<^verbatim>\<open>_get_mailbox\<close> has returned; the branch is there for totality.
\<close>

definition append_messages ::
  "(string \<Rightarrow> state \<Rightarrow> mailbox) \<Rightarrow> (string \<rightharpoonup> mailbox) \<Rightarrow> string
     \<Rightarrow> (string \<times> flag set \<times> int \<times> 'o) list \<Rightarrow> nat option \<Rightarrow> state
     \<Rightarrow> state \<times> (error + (nat \<times> nat list) \<times> nat option)" where
  "append_messages load self_mailboxes name msgs selected s =
     (case get_mailbox load self_mailboxes name selected s of
        Inl e \<Rightarrow> (s, Inl e)
      | Inr (mbx, selected') \<Rightarrow>
          (case mailboxes s name of
             None \<Rightarrow> (s, Inl (KeyError name))
           | Some m \<Rightarrow>
               (case fold (append_step mbx) msgs (m, selected_objs s, []) of
                  (m', objs', msg_uids) \<Rightarrow>
                    (let s' = s\<lparr>mailboxes := (mailboxes s)(name \<mapsto> m'), selected_objs := objs'\<rparr>
                     in (s', Inr ((mbx_uid_validity mbx, msg_uids), get_updates s' selected'))))))"

text \<open>
  The first loop of \<^verbatim>\<open>expunge_mailbox\<close>: \<^verbatim>\<open>expunged\<close> is a dictionary in insertion
  order (sequence number to UID), \<open>st_msgs\<close> is the message list of the shared state.
  The messages are read from the view, the deletions hit the shared list.
\<close>

fun expunge_loop ::
  "mailbox \<Rightarrow> selected_mailbox \<Rightarrow> nat list \<Rightarrow> (nat \<times> nat) list \<Rightarrow> message list
     \<Rightarrow> ((nat \<times> nat) list \<times> message list) \<times> error option" where
  "expunge_loop mbx selected [] expunged st_msgs = ((expunged, st_msgs), None)"
| "expunge_loop mbx selected (msg_idx # rest) expunged st_msgs =
     (case py_getitem (mbx_messages mbx) (int msg_idx) of
        Inl e \<Rightarrow> ((expunged, st_msgs), Some e)
      | Inr msg \<Rightarrow>
          if Deleted \<in> get_flags msg selected
          then expunge_loop mbx selected rest
                 (AList.update (msg_idx + 1) (uid msg) expunged) (del_slice msg_idx st_msgs)
          else expunge_loop mbx selected rest expunged st_msgs)"

text \<open>The indices \<^verbatim>\<open>messages\<close> that the first loop of \<^verbatim>\<open>expunge_mailbox\<close> walks.\<close>

definition expunge_indices :: "mailbox \<Rightarrow> sequence_set option \<Rightarrow> nat list" where
  "expunge_indices mbx uid_set =
     (case uid_set of
        None \<Rightarrow> rev [0..<mbx_exists mbx]
      | Some us \<Rightarrow> rev (List.map_filter (mbx_uid_to_idx mbx) (seq_iter us (mbx_highest_uid mbx))))"

text \<open>
  \<^verbatim>\<open>expunge_mailbox\<close>. \<^verbatim>\<open>mbx.reset_messages()\<close> refreshes the view of the session only
  and is not among the sources; the view is an input here and is not returned. The
  mailbox name of the view is that of the selection it is stored under.
\<close>

definition expunge_mailbox ::
  "(string \<rightharpoonup> mailbox) \<Rightarrow> nat \<Rightarrow> sequence_set option \<Rightarrow> state \<Rightarrow> state \<times> (error + nat)" where
  "expunge_mailbox self_mailboxes selected uid_set s =
     (case check_selected self_mailboxes s selected of
        Inl e \<Rightarrow> (s, Inl e)
      | Inr (mbx, selected') \<Rightarrow>
          (let name = sel_name (selected_objs s selected') in
           case mailboxes s name of
             None \<Rightarrow> (s, Inl (KeyError name))
           | Some m \<Rightarrow>
               (case expunge_loop mbx (selected_objs s selected') (expunge_indices mbx uid_set)
                       [] (messages m) of
                  ((expunged, st_msgs), err) \<Rightarrow>
                    (let s1 = s\<lparr>mailboxes := (mailboxes s)(name \<mapsto> m\<lparr>messages := st_msgs\<rparr>)\<rparr> in
                     case err of
                       Some e \<Rightarrow> (s1, Inl e)
                     | None \<Rightarrow>
                         if expunged \<noteq> []
                         then
                           (let sorted_expunged = sort_key fst expunged;
                                objs' = for_each_session
                                  (\<lambda>_ session. updated_set
                                     (fold (\<lambda>(msg_seq, msg_uid). remove_message msg_seq msg_uid)
                                        sorted_expunged session))
                                  (sessions m) (selected_objs s1)
                            in (s1\<lparr>selected_objs := objs'\<rparr>, Inr selected'))
                         else (s1, Inr selected')))))"

text \<open>
  One round of the first loop of \<^verbatim>\<open>copy_messages\<close>, on the shared state of the
  destination, the list \<^verbatim>\<open>results\<close> and the list \<^verbatim>\<open>source_uids\<close>. The flags of the
  source message are read through the selection of the caller.
\<close>

definition copy_step ::
  "mailbox \<Rightarrow> selected_mailbox \<Rightarrow> nat \<times> message
     \<Rightarrow> mailbox_state \<times> (nat \<times> message) list \<times> nat list
     \<Rightarrow> mailbox_state \<times> (nat \<times> message) list \<times> nat list" where
  "copy_step dest selected p acc =
     (case p of (msg_seq, msg) \<Rightarrow>
      case acc of (dm, results, source_uids) \<Rightarrow>
        (let (dest_uid, dm1) = increment_next_uid dm;
             source_uids' = source_uids @ [uid msg];
             dest_msg = Message dest_uid (contents msg) (internal_date msg);
             dest_flags = get_flags msg selected;
             dest_msg' = mailbox_update_flags dest dest_msg dest_flags REPLACE;
             dm2 = dm1\<lparr>recent := insert dest_uid (recent dm1)\<rparr>;
             dm3 = dm2\<lparr>messages := messages dm2 @ [dest_msg']\<rparr>;
             dest_seq = length (messages dm3)
         in (dm3, results @ [(dest_seq, dest_msg')], source_uids')))"

text \<open>
  The body of the inner loop of the fan-out of \<^verbatim>\<open>copy_messages\<close>, on the recent set
  of the destination and one session object.
\<close>

definition copy_notify_one :: "nat \<times> message \<Rightarrow> nat set \<times> selected_mailbox \<Rightarrow> nat set \<times> selected_mailbox" where
  "copy_notify_one p acc =
     (case p of (msg_seq, msg) \<Rightarrow>
      case acc of (rc, session) \<Rightarrow>
        (let (rc', session') =
               (if uid msg \<in> rc then (rc - {uid msg}, add_recent (uid msg) session)
                else (rc, session));
             msg_flags = get_flags msg session'
         in (rc', add_fetch msg_seq msg_flags session')))"

fun copy_notify ::
  "(nat \<times> message) list \<Rightarrow> nat list \<Rightarrow> nat set \<times> (nat \<Rightarrow> selected_mailbox)
     \<Rightarrow> nat set \<times> (nat \<Rightarrow> selected_mailbox)" where
  "copy_notify results [] acc = acc"
| "copy_notify results (sid # rest) acc =
     (case acc of (rc, objs) \<Rightarrow>
      case fold copy_notify_one results (rc, objs sid) of
        (rc', session') \<Rightarrow> copy_notify results rest (rc', objs(sid := updated_set session')))"

text \<open>
  \<^verbatim>\<open>copy_messages\<close>. The result is \<^verbatim>\<open>CopyUid(uid_validity, source_uids, dest_uids)\<close>
  as a triple, or \<^verbatim>\<open>None\<close>, with the selection.
\<close>

definition copy_messages ::
  "(string \<Rightarrow> state \<Rightarrow> mailbox) \<Rightarrow> (string \<rightharpoonup> mailbox) \<Rightarrow> nat \<Rightarrow> sequence_set \<Rightarrow> string \<Rightarrow> state
     \<Rightarrow> state \<times> (error + (nat \<times> nat list \<times> nat list) option \<times> nat)" where
  "copy_messages load self_mailboxes selected sequences mailbox s =
     (case check_selected self_mailboxes s selected of
        Inl e \<Rightarrow> (s, Inl e)
      | Inr (mbx, selected') \<Rightarrow>
     (case get_mailbox load self_mailboxes mailbox (Some selected') s of
        Inl e \<Rightarrow> (s, Inl e)
      | Inr (dest, _) \<Rightarrow>
     (case mailboxes s mailbox of
        None \<Rightarrow> (s, Inl (KeyError mailbox))
      | Some dm \<Rightarrow>
     (case iter_messages mbx sequences of (ys, err) \<Rightarrow>
     (case fold (copy_step dest (selected_objs s selected')) ys (dm, [], []) of
        (dm', results, source_uids) \<Rightarrow>
     (case err of
        Some e \<Rightarrow> (s\<lparr>mailboxes := (mailboxes s)(mailbox \<mapsto> dm')\<rparr>, Inl e)
      | None \<Rightarrow>
     (case copy_notify results (sessions dm') (recent dm', selected_objs s) of
        (rc, objs') \<Rightarrow>
          (let s' = s\<lparr>mailboxes := (mailboxes s)(mailbox \<mapsto> dm'\<lparr>recent := rc\<rparr>),
                      selected_objs := objs'\<rparr>;
               dest_uids = map (\<lambda>(_, msg). uid msg) results;
               copy_uid = (if source_uids \<noteq> [] \<and> dest_uids \<noteq> []
                           then Some (mbx_uid_validity dest, source_uids, dest_uids)
                           else None)
           in (s', Inr (copy_uid, selected'))))))))))"

text \<open>
  Modelled from the spec: the message objects of a view are the objects of the shared
  list (the classes that build the view are absent from the sources), so that the flag
  change \<^verbatim>\<open>Mailbox.update_flags\<close> makes to a message is the persistent change the spec
  (4.6) describes; the model writes the changed message back to the shared list at its
  UID.
\<close>

definition store_message :: "message \<Rightarrow> message list \<Rightarrow> message list" where
  "store_message msg' msgs = map (\<lambda>m. if uid m = uid msg' then msg' else m) msgs"

text \<open>One round of the loop of \<^verbatim>\<open>update_flags\<close>.\<close>

definition update_flags_step ::
  "mailbox \<Rightarrow> nat \<Rightarrow> flag set \<Rightarrow> flag_op \<Rightarrow> nat \<times> message
     \<Rightarrow> mailbox_state \<times> (nat \<Rightarrow> selected_mailbox) \<times> (nat \<times> message) list
     \<Rightarrow> mailbox_state \<times> (nat \<Rightarrow> selected_mailbox) \<times> (nat \<times> message) list" where
  "update_flags_step mbx selected flag_set mode p acc =
     (case p of (msg_seq, msg) \<Rightarrow>
      case acc of (m, objs, results) \<Rightarrow>
        (let msg' = mailbox_update_flags mbx msg flag_set mode;
             new_flags = persistent_flags msg';
             objs' = for_each_session
               (\<lambda>session_id session.
                  if session_id \<noteq> selected
                  then updated_set (add_fetch msg_seq new_flags session)
                  else session)
               (sessions m) objs
         in (m\<lparr>messages := store_message msg' (messages m)\<rparr>, objs', results @ [(msg_seq, msg')])))"

definition update_flags ::
  "(string \<rightharpoonup> mailbox) \<Rightarrow> nat \<Rightarrow> sequence_set \<Rightarrow> flag set \<Rightarrow> flag_op \<Rightarrow> state
     \<Rightarrow> state \<times> (error + (nat \<times> message) list \<times> nat)" where
  "update_flags self_mailboxes selected sequences flag_set mode s =
     (case check_selected self_mailboxes s selected of
        Inl e \<Rightarrow> (s, Inl e)
      | Inr (mbx, selected') \<Rightarrow>
          (let name = sel_name (selected_objs s selected') in
           case mailboxes s name of
             None \<Rightarrow> (s, Inl (KeyError name))
           | Some m \<Rightarrow>
               (case iter_messages mbx sequences of (ys, err) \<Rightarrow>
                case fold (update_flags_step mbx selected' flag_set mode) ys (m, selected_objs s, []) of
                  (m', objs', results) \<Rightarrow>
                    (let s' = s\<lparr>mailboxes := (mailboxes s)(name \<mapsto> m'), selected_objs := objs'\<rparr>
                     in case err of
                          Some e \<Rightarrow> (s', Inl e)
                        | None \<Rightarrow> (s', Inr (results, selected'))))))"

section \<open>ConnectionState: responses and commands\<close>

text \<open>
  The connection layer (\<^verbatim>\<open>src/pymap/state.py\<close>). The response classes and the command
  classes come from modules that are not among the sources. A response is its condition,
  tag, text and untagged data. Of a parsed command the model keeps the tag, the command
  name, what \<^verbatim>\<open>isinstance\<close> answers for the three command classes \<^verbatim>\<open>do_command\<close> tests
  (the class hierarchy is not at hand, so the three answers are independent inputs), the
  attribute \<^verbatim>\<open>no_expunge_response\<close> and the arguments of LIST and LSUB.
\<close>

datatype condition = OK | NO | BAD

datatype response_data =
    ListResponse string char bool
  | LSubResponse string char
  | ExistsResponse nat
  | RecentResponse nat
  | ExpungeResponse nat
  | FetchResponse nat string

record response =
  resp_condition :: condition
  resp_tag :: string
  resp_text :: string
  resp_data :: "response_data list"

definition ResponseOk :: "string \<Rightarrow> string \<Rightarrow> response" where
  "ResponseOk tag text = \<lparr>resp_condition = OK, resp_tag = tag, resp_text = text, resp_data = []\<rparr>"

definition ResponseNo :: "string \<Rightarrow> string \<Rightarrow> response" where
  "ResponseNo tag text = \<lparr>resp_condition = NO, resp_tag = tag, resp_text = text, resp_data = []\<rparr>"

definition ResponseBad :: "string \<Rightarrow> string \<Rightarrow> response" where
  "ResponseBad tag text = \<lparr>resp_condition = BAD, resp_tag = tag, resp_text = text, resp_data = []\<rparr>"

definition add_data :: "response_data \<Rightarrow> response \<Rightarrow> response" where
  "add_data d resp = resp\<lparr>resp_data := resp_data resp @ [d]\<rparr>"

record command =
  cmd_tag :: string
  cmd_command :: string
  is_CommandNonAuth :: bool
  is_CommandAuth :: bool
  is_CommandSelect :: bool
  no_expunge_response :: bool
  cmd_ref_name :: string
  cmd_filter :: string

text \<open>
  What \<^verbatim>\<open>session.list_mailboxes()\<close> hands to \<^verbatim>\<open>do_list\<close>: objects with a name, a
  separator and a count of recent messages (the backend of this interface is not among
  the sources).
\<close>

record mailbox_entry =
  entry_name :: string
  entry_sep :: char
  entry_recent :: nat

text \<open>What \<^verbatim>\<open>selected.poll()\<close> returns: a dictionary with up to four keys.\<close>

record updates =
  upd_exists :: "nat option"
  upd_recent :: "nat option"
  upd_expunge :: "nat list option"
  upd_fetch :: "(nat \<times> string) list option"

text \<open>
  The connection: at most one session and at most one selection (the identity of the
  selected object, or \<^verbatim>\<open>None\<close>). Both are tested for truth; an object is taken to be
  true.
\<close>

record 'b connection_state =
  cs_session :: "'b option"
  cs_selected :: "nat option"

datatype conn_exception = CloseConnection response | UnicodeDecodeError

section \<open>ConnectionState: LIST and LSUB\<close>

definition mailbox_matches :: "string \<Rightarrow> char \<Rightarrow> string \<Rightarrow> string \<Rightarrow> bool" where
  "mailbox_matches name sep ref_name filter_pat = True"

definition do_list :: "mailbox_entry list \<Rightarrow> command \<Rightarrow> response" where
  "do_list mailbox_list cmd =
     fold (\<lambda>mbx resp.
             if mailbox_matches (entry_name mbx) (entry_sep mbx) (cmd_ref_name cmd) (cmd_filter cmd)
             then add_data (ListResponse (entry_name mbx) (entry_sep mbx) (entry_recent mbx \<noteq> 0)) resp
             else resp)
       mailbox_list (ResponseOk (cmd_tag cmd) ''LIST completed.'')"

definition do_lsub :: "mailbox_entry list \<Rightarrow> command \<Rightarrow> response" where
  "do_lsub mailbox_list cmd =
     fold (\<lambda>mbx resp.
             if mailbox_matches (entry_name mbx) (entry_sep mbx) (cmd_ref_name cmd) (cmd_filter cmd)
             then add_data (LSubResponse (entry_name mbx) (entry_sep mbx)) resp
             else resp)
       mailbox_list (ResponseOk (cmd_tag cmd) ''LSUB completed.'')"

section \<open>ConnectionState: dispatch\<close>

text \<open>
  \<^verbatim>\<open>_check_mailbox_updates\<close>; what \<^verbatim>\<open>poll\<close> returns is an input, and a polled fetch
  entry is the sequence number with the data \<^verbatim>\<open>msg.fetch\<close> renders.
\<close>

definition check_mailbox_updates :: "updates \<Rightarrow> command \<Rightarrow> response \<Rightarrow> response" where
  "check_mailbox_updates upd cmd resp =
     (let send_expunge = \<not> no_expunge_response cmd;
          resp1 = (case upd_exists upd of Some n \<Rightarrow> add_data (ExistsResponse n) resp | None \<Rightarrow> resp);
          resp2 = (case upd_recent upd of Some n \<Rightarrow> add_data (RecentResponse n) resp1 | None \<Rightarrow> resp1);
          resp3 = (case upd_expunge upd of
                     Some seqs \<Rightarrow>
                       if send_expunge then fold (\<lambda>seq. add_data (ExpungeResponse seq)) seqs resp2
                       else resp2
                   | None \<Rightarrow> resp2)
      in (case upd_fetch upd of
            Some msgs \<Rightarrow> fold (\<lambda>(seq, fetch_data). add_data (FetchResponse seq fetch_data)) msgs resp3
          | None \<Rightarrow> resp3))"

text \<open>Lower case of an ASCII letter, as \<^verbatim>\<open>str.lower\<close> has it on ASCII text.\<close>

definition lower_char :: "char \<Rightarrow> char" where
  "lower_char c =
     (let n = (of_char c :: nat) in if 65 \<le> n \<and> n \<le> 90 then char_of (n + 32) else c)"

text \<open>
  \<^verbatim>\<open>do_command\<close>. The handlers \<^verbatim>\<open>do_...\<close> are an input: a table from method names to
  functions on the connection that return a response or raise. \<^verbatim>\<open>getattr\<close> misses when
  the table has no entry. \<open>poll\<close> is what the selection answers to \<^verbatim>\<open>poll()\<close> after the
  handler has run.
\<close>

definition do_command ::
  "(string \<rightharpoonup> (command \<Rightarrow> 'b connection_state \<Rightarrow> 'b connection_state \<times> (conn_exception + response)))
     \<Rightarrow> (nat \<Rightarrow> updates) \<Rightarrow> 'b connection_state \<Rightarrow> command
     \<Rightarrow> 'b connection_state \<times> (conn_exception + response)" where
  "do_command handlers poll cs cmd =
     (if cs_session cs \<noteq> None \<and> is_CommandNonAuth cmd
      then (cs, Inr (ResponseBad (cmd_tag cmd) (cmd_command cmd @ '': Already authenticated.'')))
      else if cs_session cs = None \<and> is_CommandAuth cmd
      then (cs, Inr (ResponseBad (cmd_tag cmd) (cmd_command cmd @ '': Must authenticate first.'')))
      else if cs_selected cs = None \<and> is_CommandSelect cmd
      then (cs, Inr (ResponseBad (cmd_tag cmd) (cmd_command cmd @ '': Must select a mailbox first.'')))
      else
        (let pre_selected = cs_selected cs in
         if list_ex (\<lambda>c. 128 \<le> (of_char c :: nat)) (cmd_command cmd)
         then (cs, Inl UnicodeDecodeError)
         else
           (let func_name = ''do_'' @ map lower_char (cmd_command cmd) in
            case handlers func_name of
              None \<Rightarrow> (cs, Inr (ResponseNo (cmd_tag cmd) (cmd_command cmd @ '': Not Implemented'')))
            | Some func \<Rightarrow>
                (case func cmd cs of
                   (cs', Inl exn) \<Rightarrow> (cs', Inl exn)
                 | (cs', Inr resp) \<Rightarrow>
                     (case cs_selected cs' of
                        Some sel \<Rightarrow>
                          if cs_selected cs' = pre_selected
                          then (cs', Inr (check_mailbox_updates (poll sel) cmd resp))
                          else (cs', Inr resp)
                      | None \<Rightarrow> (cs', Inr resp))))))"

section \<open>StatusAttribute\<close>

text \<open>
  \<^verbatim>\<open>src/pymap/parsing/specials/statusattr.py\<close>. Byte strings are strings of the model;
  \<^verbatim>\<open>bytes.upper\<close> changes the ASCII lower-case letters and nothing else.
\<close>

definition upper_char :: "char \<Rightarrow> char" where
  "upper_char c =
     (let n = (of_char c :: nat) in if 97 \<le> n \<and> n \<le> 122 then char_of (n - 32) else c)"

definition bytes_upper :: "string \<Rightarrow> string" where
  "bytes_upper bs = map upper_char bs"









section \<open>IMAP wildcards, as the specification words them\<close>

text \<open>
  The matching the spec (4.6) asks of LIST: in a pattern, \<open>*\<close> matches any characters
  and \<open>%\<close> matches any characters except the hierarchy separator; every other character
  matches itself. The pattern of a LIST command is the reference name followed by the
  filter.
\<close>

fun imap_match :: "char \<Rightarrow> string \<Rightarrow> string \<Rightarrow> bool" where
  "imap_match sep [] name = (name = [])"
| "imap_match sep (p # ps) name =
     (if p = CHR ''*''
      then list_ex (\<lambda>k. imap_match sep ps (drop k name)) [0..<Suc (length name)]
      else if p = CHR ''%''
      then list_ex (\<lambda>k. sep \<notin> set (take k name) \<and> imap_match sep ps (drop k name))
             [0..<Suc (length name)]
      else (case name of [] \<Rightarrow> False | c # cs \<Rightarrow> c = p \<and> imap_match sep ps cs))"

definition spec_mailbox_matches :: "string \<Rightarrow> char \<Rightarrow> string \<Rightarrow> string \<Rightarrow> bool" where
  "spec_mailbox_matches name sep ref_name filter_pat = imap_match sep (ref_name @ filter_pat) name"

section \<open>Example data\<close>

text \<open>
  A mailbox INBOX with the four messages of the test suite (UIDs 101 to 104, next UID
  105), two of them flagged as deleted, a view that is in step with it, and a store of
  selected-mailbox objects that all have INBOX selected.
\<close>

definition ex_msg :: "nat \<Rightarrow> flag set \<Rightarrow> message" where
  "ex_msg u fs = \<lparr>uid = u, contents = ''body'', internal_date = 0, persistent_flags = fs\<rparr>"

definition ex_selected :: "string \<Rightarrow> selected_mailbox" where
  "ex_selected name =
     \<lparr>sel_name = name, sel_readonly = False, session_flags = (\<lambda>_. {}), pending = [], updated = False\<rparr>"

definition ex_inbox :: "nat list \<Rightarrow> mailbox_state" where
  "ex_inbox sids =
     \<lparr>next_uid = 105, uid_validity = 7,
      messages = [ex_msg 101 {}, ex_msg 102 {Deleted}, ex_msg 103 {Seen}, ex_msg 104 {Deleted}],
      recent = {}, sessions = sids, subscribed = False\<rparr>"

definition ex_view :: "mailbox_state \<Rightarrow> mailbox" where
  "ex_view m =
     \<lparr>mbx_messages = messages m, mbx_exists = length (messages m),
      mbx_highest_uid = next_uid m - 1,
      mbx_uid_to_idx = map_of (zip (map uid (messages m)) [0..<length (messages m)]),
      mbx_uid_validity = uid_validity m,
      permanent_flags = {Seen, Answered, Flagged, Deleted, Draft}\<rparr>"

definition ex_load :: "string \<Rightarrow> state \<Rightarrow> mailbox" where
  "ex_load name s = (case mailboxes s name of Some m \<Rightarrow> ex_view m | None \<Rightarrow> ex_view (ex_inbox []))"

definition ex_state :: "nat list \<Rightarrow> state" where
  "ex_state sids =
     \<lparr>mailboxes = [''INBOX'' \<mapsto> ex_inbox sids], selected_objs = (\<lambda>_. ex_selected ''INBOX'')\<rparr>"

text \<open>
  A second mailbox Target (next UID 10, no messages) beside INBOX, as in the COPY scenario
  of the spec. The objects 2 and 3 have Target selected, every other object INBOX. The
  sequence set is the UID set 101,103.
\<close>

definition ex_target :: "nat list \<Rightarrow> mailbox_state" where
  "ex_target sids =
     \<lparr>next_uid = 10, uid_validity = 9, messages = [], recent = {}, sessions = sids,
      subscribed = False\<rparr>"

definition ex_state2 :: "nat list \<Rightarrow> state" where
  "ex_state2 sids =
     \<lparr>mailboxes = [''INBOX'' \<mapsto> ex_inbox [], ''Target'' \<mapsto> ex_target sids],
      selected_objs = (\<lambda>i. if i = 2 \<or> i = 3 then ex_selected ''Target'' else ex_selected ''INBOX'')\<rparr>"

definition ex_uids :: sequence_set where
  "ex_uids = \<lparr>seq_uid = True, seq_iter = (\<lambda>_. [101, 103])\<rparr>"

text \<open>The sequence set that holds the sequence number 2 alone.\<close>

definition ex_seq2 :: sequence_set where
  "ex_seq2 = \<lparr>seq_uid = False, seq_iter = (\<lambda>_. [2])\<rparr>"


definition ex_uids_desc :: sequence_set where
  "ex_uids_desc = \<lparr>seq_uid = True, seq_iter = (\<lambda>_. [104, 102])\<rparr>"

text \<open>
  Commands and connections for the gating examples: a command with a tag, a name and the
  three class answers; a connection with or without a session and selection.
\<close>

definition ex_cmd :: "string \<Rightarrow> string \<Rightarrow> bool \<Rightarrow> bool \<Rightarrow> bool \<Rightarrow> command" where
  "ex_cmd tag name nonauth auth sel =
     \<lparr>cmd_tag = tag, cmd_command = name, is_CommandNonAuth = nonauth, is_CommandAuth = auth,
      is_CommandSelect = sel, no_expunge_response = False, cmd_ref_name = [], cmd_filter = []\<rparr>"

definition ex_conn :: "unit option \<Rightarrow> nat option \<Rightarrow> unit connection_state" where
  "ex_conn session sel = \<lparr>cs_session = session, cs_selected = sel\<rparr>"

definition ex_no_updates :: "nat \<Rightarrow> updates" where
  "ex_no_updates sel = \<lparr>upd_exists = None, upd_recent = None, upd_expunge = None, upd_fetch = None\<rparr>"

text \<open>The three mailboxes of the test suite, and a LIST command with the filter Sent.\<close>

definition ex_entries :: "mailbox_entry list" where
  "ex_entries =
     [\<lparr>entry_name = ''INBOX'', entry_sep = CHR ''.'', entry_recent = 1\<rparr>,
      \<lparr>entry_name = ''Sent'', entry_sep = CHR ''.'', entry_recent = 0\<rparr>,
      \<lparr>entry_name = ''Trash'', entry_sep = CHR ''.'', entry_recent = 0\<rparr>]"

definition ex_list_cmd :: command where
  "ex_list_cmd = (ex_cmd ''list1'' ''LIST'' False True False)\<lparr>cmd_filter := ''Sent''\<rparr>"

text \<open>A registry with the mailbox Sent and a mailbox below it in the hierarchy.\<close>

definition ex_state3 :: state where
  "ex_state3 =
     \<lparr>mailboxes = [''INBOX'' \<mapsto> ex_inbox [], ''Sent'' \<mapsto> ex_target [], ''Sent.Old'' \<mapsto> ex_target []],
      selected_objs = (\<lambda>_. ex_selected ''INBOX'')\<rparr>"

section \<open>Statements of the specification\<close>

text \<open>
  The updates the spec (4.3) has \<^verbatim>\<open>append\<close> enqueue to a session for a list of appended
  messages, the first of which lands at sequence number \<open>n + 1\<close>: an \<^verbatim>\<open>Exists\<close> and a
  \<^verbatim>\<open>Fetch(seq, flags)\<close> per message, with the flags as supplied.
\<close>

fun spec_append_updates :: "nat \<Rightarrow> (string \<times> flag set \<times> int \<times> 'o) list \<Rightarrow> update list" where
  "spec_append_updates n [] = []"
| "spec_append_updates n (am # rest) =
     [Exists (n + 1), Fetch (n + 1) (fst (snd am))] @ spec_append_updates (n + 1) rest"

section \<open>All operations of a session\<close>

text \<open>
  The operations of \<^verbatim>\<open>Session\<close> that write to the shared state, as one datatype, and the
  state each of them leaves behind (whether it returns or raises).
\<close>

datatype 'o session_op =
    AppendMessages string "(string \<times> flag set \<times> int \<times> 'o) list" "nat option"
  | CopyMessages nat sequence_set string
  | ExpungeMailbox nat "sequence_set option"
  | UpdateFlags nat sequence_set "flag set" flag_op
  | CreateMailbox mailbox_state string "nat option"
  | DeleteMailbox string "nat option"
  | RenameMailbox string string "nat option"
  | Subscribe string "nat option"
  | Unsubscribe string "nat option"

fun run_op ::
  "(string \<Rightarrow> state \<Rightarrow> mailbox) \<Rightarrow> (string \<rightharpoonup> mailbox) \<Rightarrow> 'o session_op \<Rightarrow> state \<Rightarrow> state" where
  "run_op load self_mailboxes (AppendMessages name msgs selected) s =
     fst (append_messages load self_mailboxes name msgs selected s)"
| "run_op load self_mailboxes (CopyMessages selected sequences mailbox) s =
     fst (copy_messages load self_mailboxes selected sequences mailbox s)"
| "run_op load self_mailboxes (ExpungeMailbox selected uid_set) s =
     fst (expunge_mailbox self_mailboxes selected uid_set s)"
| "run_op load self_mailboxes (UpdateFlags selected sequences flag_set mode) s =
     fst (update_flags self_mailboxes selected sequences flag_set mode s)"
| "run_op load self_mailboxes (CreateMailbox fresh name selected) s =
     fst (create_mailbox fresh name selected s)"
| "run_op load self_mailboxes (DeleteMailbox name selected) s =
     fst (fst (delete_mailbox self_mailboxes name selected s))"
| "run_op load self_mailboxes (RenameMailbox before_name after_name selected) s =
     fst (rename_mailbox before_name after_name selected s)"
| "run_op load self_mailboxes (Subscribe name selected) s = fst (subscribe name selected s)"
| "run_op load self_mailboxes (Unsubscribe name selected) s = fst (unsubscribe name selected s)"

text \<open>The operations that call \<^verbatim>\<open>_increment_next_uid\<close>.\<close>

fun allocates_uids :: "'o session_op \<Rightarrow> bool" where
  "allocates_uids (AppendMessages _ _ _) = True"
| "allocates_uids (CopyMessages _ _ _) = True"
| "allocates_uids _ = False"

section \<open>The UID invariant\<close>

text \<open>
  The invariant of the spec (3): the UIDs of the message list increase strictly with the
  index, and each is below \<^verbatim>\<open>next_uid\<close>.
\<close>

definition mailbox_inv :: "mailbox_state \<Rightarrow> bool" where
  "mailbox_inv m \<longleftrightarrow>
     sorted_wrt (<) (map uid (messages m)) \<and> list_all (\<lambda>msg. uid msg < next_uid m) (messages m)"

definition state_inv :: "state \<Rightarrow> bool" where
  "state_inv s \<longleftrightarrow> (\<forall>name m. mailboxes s name = Some m \<longrightarrow> mailbox_inv m)"

text \<open>
  The state a created mailbox starts in comes from a factory that is not among the
  sources; a creation is well-formed when that state satisfies the invariant.
\<close>

fun op_wf :: "'o session_op \<Rightarrow> bool" where
  "op_wf (CreateMailbox fresh _ _) = mailbox_inv fresh"
| "op_wf _ = True"

text \<open>
  What the message operations do to the registry: nothing, or one entry is replaced
  (and objects of the store may change). \<open>exact\<close> says that \<^verbatim>\<open>next_uid\<close> of the entry
  is left as it was.
\<close>

definition replaces_entry :: "bool \<Rightarrow> state \<Rightarrow> state \<Rightarrow> bool" where
  "replaces_entry exact s s' \<longleftrightarrow>
     s' = s \<or>
     (\<exists>name m m' objs'.
        mailboxes s name = Some m \<and>
        s' = s\<lparr>mailboxes := (mailboxes s)(name \<mapsto> m'), selected_objs := objs'\<rparr> \<and>
        (mailbox_inv m \<longrightarrow> mailbox_inv m') \<and>
        next_uid m \<le> next_uid m' \<and>
        (exact \<longrightarrow> next_uid m' = next_uid m))"

section \<open>Views in step with the shared state\<close>






section \<open>Lemmas on the helpers\<close>

lemma for_each_session_apply:
  "distinct sids \<Longrightarrow>
   for_each_session body sids objs sid = (if sid \<in> set sids then body sid (objs sid) else objs sid)"
  unfolding for_each_session_def
  by (induction sids arbitrary: objs) auto

lemma for_each_session_other:
  "sid \<notin> set sids \<Longrightarrow> for_each_session body sids objs sid = objs sid"
  unfolding for_each_session_def
  by (induction sids arbitrary: objs) auto

section \<open>Appending notifies the sessions or marks the message recent\<close>

lemma append_step_sessions:
  "sessions m \<noteq> [] \<Longrightarrow>
   append_step mbx (data, flag_set, when, x) (m, objs, uids) =
     (m\<lparr>next_uid := next_uid m + 1,
        messages := messages m @ [message_parse (next_uid m) data (flag_set \<inter> permanent_flags mbx) when]\<rparr>,
      for_each_session
        (\<lambda>_ session. updated_set (add_message (length (messages m) + 1) (next_uid m) flag_set session))
        (sessions m) objs,
      uids @ [next_uid m])"
  by (simp add: append_step_def increment_next_uid_def Let_def)

lemma append_step_no_sessions:
  "sessions m = [] \<Longrightarrow>
   append_step mbx (data, flag_set, when, x) (m, objs, uids) =
     (m\<lparr>next_uid := next_uid m + 1,
        messages := messages m @ [message_parse (next_uid m) data (flag_set \<inter> permanent_flags mbx) when],
        recent := insert (next_uid m) (recent m)\<rparr>,
      objs, uids @ [next_uid m])"
  by (simp add: append_step_def increment_next_uid_def Let_def)

lemma append_step_frame:
  assumes "append_step mbx am (m, objs, uids) = (m1, objs1, uids1)"
  shows "sessions m1 = sessions m" "next_uid m1 = next_uid m + 1"
     "uid_validity m1 = uid_validity m" "subscribed m1 = subscribed m"
     "length (messages m1) = length (messages m) + 1" "uids1 = uids @ [next_uid m]"
     "map uid (messages m1) = map uid (messages m) @ [next_uid m]"
proof -
  obtain data flag_set "when" x where am: "am = (data, flag_set, when, x)" by (cases am) auto
  show "sessions m1 = sessions m" "next_uid m1 = next_uid m + 1"
     "uid_validity m1 = uid_validity m" "subscribed m1 = subscribed m"
     "length (messages m1) = length (messages m) + 1" "uids1 = uids @ [next_uid m]"
     "map uid (messages m1) = map uid (messages m) @ [next_uid m]"
    using assms unfolding am
    by (cases "sessions m = []"; simp add: append_step_sessions append_step_no_sessions message_parse_def; fastforce)+
qed

lemma upt_shift: "[n..<Suc (n + k)] = n # [Suc n..<Suc (n + k)]"
  by (rule upt_conv_Cons) simp

lemma ivl_shift: "{n..<Suc (n + k)} = insert n {Suc n..<Suc (n + k)}"
  by auto

lemma append_fold_frame:
  assumes "fold (append_step mbx) msgs (m, objs, uids) = (m', objs', uids')"
  shows "sessions m' = sessions m \<and> next_uid m' = next_uid m + length msgs
       \<and> uid_validity m' = uid_validity m \<and> subscribed m' = subscribed m
       \<and> length (messages m') = length (messages m) + length msgs
       \<and> uids' = uids @ [next_uid m..<next_uid m + length msgs]
       \<and> map uid (messages m') = map uid (messages m) @ [next_uid m..<next_uid m + length msgs]"
  using assms
proof (induction msgs arbitrary: m objs uids)
  case Nil
  then show ?case by simp
next
  case (Cons am rest)
  obtain m1 objs1 uids1 where st: "append_step mbx am (m, objs, uids) = (m1, objs1, uids1)"
    by (cases "append_step mbx am (m, objs, uids)") auto
  note a = append_step_frame[OF st]
  from Cons.prems st have "fold (append_step mbx) rest (m1, objs1, uids1) = (m', objs', uids')" by simp
  from Cons.IH[OF this] a show ?case
    by (simp add: upt_shift del: upt_Suc)
qed

lemma append_fold_no_sessions:
  assumes "fold (append_step mbx) msgs (m, objs, uids) = (m', objs', uids')" "sessions m = []"
  shows "objs' = objs \<and> recent m' = recent m \<union> {next_uid m..<next_uid m + length msgs}"
  using assms
proof (induction msgs arbitrary: m objs uids)
  case Nil
  then show ?case by simp
next
  case (Cons am rest)
  obtain m1 objs1 uids1 where st: "append_step mbx am (m, objs, uids) = (m1, objs1, uids1)"
    by (cases "append_step mbx am (m, objs, uids)") auto
  obtain data flag_set "when" x where am: "am = (data, flag_set, when, x)" by (cases am) auto
  from st Cons.prems(2) have a: "sessions m1 = []" "next_uid m1 = next_uid m + 1" "objs1 = objs"
     "recent m1 = insert (next_uid m) (recent m)"
    unfolding am by (auto simp: append_step_no_sessions)
  from Cons.prems st have "fold (append_step mbx) rest (m1, objs1, uids1) = (m', objs', uids')" by simp
  from Cons.IH[OF this a(1)] a show ?case
    by (simp add: ivl_shift)
qed

lemma append_fold_sessions:
  assumes "fold (append_step mbx) msgs (m, objs, uids) = (m', objs', uids')" "sessions m \<noteq> []"
     "distinct (sessions m)"
  shows "recent m' = recent m \<and>
     (\<forall>sid. objs' sid = (if sid \<in> set (sessions m) \<and> msgs \<noteq> []
         then (objs sid)\<lparr>pending := pending (objs sid) @ spec_append_updates (length (messages m)) msgs,
                         updated := True\<rparr>
         else objs sid))"
  using assms
proof (induction msgs arbitrary: m objs uids)
  case Nil
  then show ?case by simp
next
  case (Cons am rest)
  obtain m1 objs1 uids1 where st: "append_step mbx am (m, objs, uids) = (m1, objs1, uids1)"
    by (cases "append_step mbx am (m, objs, uids)") auto
  obtain data flag_set "when" x where am: "am = (data, flag_set, when, x)" by (cases am) auto
  from st Cons.prems(2) have a: "sessions m1 = sessions m" "recent m1 = recent m"
     "length (messages m1) = length (messages m) + 1"
     "objs1 = for_each_session (\<lambda>_ session. updated_set
         (add_message (length (messages m) + 1) (next_uid m) (fst (snd am)) session)) (sessions m) objs"
    unfolding am by (auto simp: append_step_sessions)
  from Cons.prems st have f: "fold (append_step mbx) rest (m1, objs1, uids1) = (m', objs', uids')" by simp
  have ih: "recent m' = recent m1 \<and>
     (\<forall>sid. objs' sid = (if sid \<in> set (sessions m1) \<and> rest \<noteq> []
         then (objs1 sid)\<lparr>pending := pending (objs1 sid) @ spec_append_updates (length (messages m1)) rest,
                         updated := True\<rparr>
         else objs1 sid))"
    using Cons.IH[OF f] Cons.prems a by simp
  show ?case
  proof (intro conjI allI)
    show "recent m' = recent m" using ih a by simp
  next
    fix sid
    show "objs' sid = (if sid \<in> set (sessions m) \<and> am # rest \<noteq> []
         then (objs sid)\<lparr>pending := pending (objs sid) @ spec_append_updates (length (messages m)) (am # rest),
                         updated := True\<rparr>
         else objs sid)"
      using ih a Cons.prems(3)
      by (cases "rest = []")
         (auto simp: for_each_session_apply updated_set_def add_message_def)
  qed
qed

lemma append_messages_unfold:
  assumes "mailboxes s name = Some m"
  shows "append_messages load self_mailboxes name msgs selected s =
     (let mbx = (case self_mailboxes name of Some mbx \<Rightarrow> mbx | None \<Rightarrow> load name s) in
      case fold (append_step mbx) msgs (m, selected_objs s, []) of
        (m', objs', msg_uids) \<Rightarrow>
          (let s' = s\<lparr>mailboxes := (mailboxes s)(name \<mapsto> m'), selected_objs := objs'\<rparr>
           in (s', Inr ((mbx_uid_validity mbx, msg_uids), get_updates s' (get_updates s selected)))))"
  using assms
  by (simp add: append_messages_def get_mailbox_def Let_def split: option.splits)

text \<open>
  Claim C4. \<^verbatim>\<open>append_messages\<close> on a mailbox appends the messages with the next UIDs
  in order. If the mailbox has registered sessions, each of them is enqueued an
  \<^verbatim>\<open>Exists\<close> and a \<^verbatim>\<open>Fetch(seq, flags)\<close> per message and has \<^verbatim>\<open>updated\<close> set, every
  other object of the store is left alone, and the recent set of the mailbox is
  unchanged. If it has none, the new UIDs are added to the recent set and no object of
  the store changes. The registry of sessions is a set: it lists no session twice.
\<close>

theorem append_messages_notifies:
  assumes "mailboxes s name = Some m" and "distinct (sessions m)"
      and "append_messages load self_mailboxes name msgs selected s = (s', res)"
  shows "\<exists>m'. mailboxes s' name = Some m'
      \<and> map uid (messages m') = map uid (messages m) @ [next_uid m..<next_uid m + length msgs]
      \<and> (if sessions m \<noteq> []
         then recent m' = recent m \<and>
              (\<forall>sid. selected_objs s' sid =
                 (if sid \<in> set (sessions m) \<and> msgs \<noteq> []
                  then (selected_objs s sid)
                         \<lparr>pending := pending (selected_objs s sid)
                                       @ spec_append_updates (length (messages m)) msgs,
                          updated := True\<rparr>
                  else selected_objs s sid))
         else recent m' = recent m \<union> {next_uid m..<next_uid m + length msgs}
              \<and> selected_objs s' = selected_objs s)"
proof -
  define mbx where "mbx = (case self_mailboxes name of Some mbx \<Rightarrow> mbx | None \<Rightarrow> load name s)"
  obtain m' objs' msg_uids where
    f: "fold (append_step mbx) msgs (m, selected_objs s, []) = (m', objs', msg_uids)"
    by (cases "fold (append_step mbx) msgs (m, selected_objs s, [])") auto
  from assms(3) have s': "s' = s\<lparr>mailboxes := (mailboxes s)(name \<mapsto> m'), selected_objs := objs'\<rparr>"
    unfolding append_messages_unfold[OF assms(1)] mbx_def[symmetric] by (simp add: f Let_def)
  note fr = append_fold_frame[OF f]
  show ?thesis
  proof (cases "sessions m = []")
    case True
    from append_fold_no_sessions[OF f True] fr True show ?thesis
      by (simp add: s')
  next
    case False
    from append_fold_sessions[OF f False assms(2)] fr False show ?thesis
      by (simp add: s')
  qed
qed

theorem append_messages_notifies_witness:
  "pending (selected_objs (fst (append_messages ex_load Map.empty ''INBOX''
       [(''test message'', {Seen}, 0, ())] None (ex_state [1, 2]))) 2) = [Exists 5, Fetch 5 {Seen}]
   \<and> updated (selected_objs (fst (append_messages ex_load Map.empty ''INBOX''
       [(''test message'', {Seen}, 0, ())] None (ex_state [1, 2]))) 2)
   \<and> (\<exists>m'. mailboxes (fst (append_messages ex_load Map.empty ''INBOX''
       [(''test message'', {Seen}, 0, ())] None (ex_state [1, 2]))) ''INBOX'' = Some m' \<and> recent m' = {})
   \<and> (\<exists>m'. mailboxes (fst (append_messages ex_load Map.empty ''INBOX''
       [(''test message'', {Seen}, 0, ())] None (ex_state []))) ''INBOX'' = Some m' \<and> recent m' = {105})"
proof -
  let ?msgs = "[(''test message'', {Seen}, 0::int, ())]"
  have m: "mailboxes (ex_state sids) ''INBOX'' = Some (ex_inbox sids)" for sids
    by (simp add: ex_state_def)
  have d: "distinct (sessions (ex_inbox [1, 2]))" "distinct (sessions (ex_inbox []))"
    by (simp_all add: ex_inbox_def)
  have r: "append_messages ex_load Map.empty ''INBOX'' ?msgs None (ex_state sids)
      = (fst (append_messages ex_load Map.empty ''INBOX'' ?msgs None (ex_state sids)),
         snd (append_messages ex_load Map.empty ''INBOX'' ?msgs None (ex_state sids)))" for sids
    by simp
  from append_messages_notifies[OF m d(1) r] append_messages_notifies[OF m d(2) r]
  show ?thesis
    by (auto simp: ex_inbox_def ex_state_def ex_selected_def)
qed

section \<open>The UID invariant is kept by every operation\<close>

lemma mailbox_inv_iff:
  "mailbox_inv m \<longleftrightarrow>
     sorted_wrt (<) (map uid (messages m)) \<and> (\<forall>u \<in> set (map uid (messages m)). u < next_uid m)"
  by (auto simp: mailbox_inv_def list_all_iff)

lemma uids_extend:
  assumes "sorted_wrt (<) us" "\<forall>u \<in> set us. u < (n::nat)"
  shows "sorted_wrt (<) (us @ [n..<n + k])" "\<forall>u \<in> set (us @ [n..<n + k]). u < n + k"
  using assms by (auto simp: sorted_wrt_append)

lemma upt_shift2: "[Suc n..<Suc (Suc (n + k))] = Suc n # [Suc (Suc n)..<Suc (Suc (n + k))]"
  by (rule upt_conv_Cons) simp

lemma mailbox_inv_extend:
  assumes "mailbox_inv m" "map uid (messages m') = map uid (messages m) @ [next_uid m..<next_uid m + k]"
     "next_uid m' = next_uid m + k"
  shows "mailbox_inv m'"
proof -
  from assms(1) have a: "sorted_wrt (<) (map uid (messages m))"
      "\<forall>u \<in> set (map uid (messages m)). u < next_uid m"
    by (simp_all add: mailbox_inv_iff)
  show ?thesis
    unfolding mailbox_inv_iff assms(2,3)
    by (intro conjI uids_extend[OF a])
qed

lemma append_fold_inv:
  assumes "fold (append_step mbx) msgs (m, objs, uids) = (m', objs', uids')" "mailbox_inv m"
  shows "mailbox_inv m' \<and> next_uid m \<le> next_uid m'"
proof -
  note fr = append_fold_frame[OF assms(1)]
  from fr have "mailbox_inv m'"
    by (intro mailbox_inv_extend[OF assms(2), of m' "length msgs"]) simp_all
  with fr show ?thesis by simp
qed

lemma copy_step_frame:
  assumes "copy_step dest sel p (dm, results, source_uids) = (dm1, results1, source_uids1)"
  shows "sessions dm1 = sessions dm" "next_uid dm1 = next_uid dm + 1"
     "uid_validity dm1 = uid_validity dm" "subscribed dm1 = subscribed dm"
     "length (messages dm1) = length (messages dm) + 1"
     "source_uids1 = source_uids @ [uid (snd p)]"
     "map uid (messages dm1) = map uid (messages dm) @ [next_uid dm]"
     "recent dm1 = insert (next_uid dm) (recent dm)"
     "map (\<lambda>(_, msg). uid msg) results1 = map (\<lambda>(_, msg). uid msg) results @ [next_uid dm]"
     "map fst results1 = map fst results @ [length (messages dm) + 1]"
proof -
  obtain msg_seq msg where p: "p = (msg_seq, msg)" by (cases p) auto
  have eq: "copy_step dest sel p (dm, results, source_uids) =
     (dm\<lparr>next_uid := next_uid dm + 1, recent := insert (next_uid dm) (recent dm),
         messages := messages dm @ [mailbox_update_flags dest
            (Message (next_uid dm) (contents msg) (internal_date msg)) (get_flags msg sel) REPLACE]\<rparr>,
      results @ [(length (messages dm) + 1, mailbox_update_flags dest
            (Message (next_uid dm) (contents msg) (internal_date msg)) (get_flags msg sel) REPLACE)],
      source_uids @ [uid msg])"
    unfolding p by (simp add: copy_step_def increment_next_uid_def Let_def)
  have u: "uid (mailbox_update_flags dest (Message n c d) fs REPLACE) = n" for n c d fs
    by (simp add: mailbox_update_flags_def Message_def)
  from assms[unfolded eq] have
    dm1: "dm1 = dm\<lparr>next_uid := next_uid dm + 1, recent := insert (next_uid dm) (recent dm),
         messages := messages dm @ [mailbox_update_flags dest
            (Message (next_uid dm) (contents msg) (internal_date msg)) (get_flags msg sel) REPLACE]\<rparr>"
    and r1: "results1 = results @ [(length (messages dm) + 1, mailbox_update_flags dest
            (Message (next_uid dm) (contents msg) (internal_date msg)) (get_flags msg sel) REPLACE)]"
    and s1: "source_uids1 = source_uids @ [uid msg]"
    by simp_all
  show "sessions dm1 = sessions dm" "next_uid dm1 = next_uid dm + 1"
     "uid_validity dm1 = uid_validity dm" "subscribed dm1 = subscribed dm"
     "length (messages dm1) = length (messages dm) + 1"
     "source_uids1 = source_uids @ [uid (snd p)]"
     "map uid (messages dm1) = map uid (messages dm) @ [next_uid dm]"
     "recent dm1 = insert (next_uid dm) (recent dm)"
     "map (\<lambda>(_, msg). uid msg) results1 = map (\<lambda>(_, msg). uid msg) results @ [next_uid dm]"
     "map fst results1 = map fst results @ [length (messages dm) + 1]"
    by (simp_all add: dm1 r1 s1 p u)
qed

lemma copy_fold_frame:
  assumes "fold (copy_step dest sel) ys (dm, results, source_uids) = (dm', results', source_uids')"
  shows "sessions dm' = sessions dm \<and> next_uid dm' = next_uid dm + length ys
       \<and> uid_validity dm' = uid_validity dm \<and> subscribed dm' = subscribed dm
       \<and> length (messages dm') = length (messages dm) + length ys
       \<and> source_uids' = source_uids @ map (\<lambda>(_, msg). uid msg) ys
       \<and> map uid (messages dm') = map uid (messages dm) @ [next_uid dm..<next_uid dm + length ys]
       \<and> recent dm' = recent dm \<union> {next_uid dm..<next_uid dm + length ys}
       \<and> map (\<lambda>(_, msg). uid msg) results'
           = map (\<lambda>(_, msg). uid msg) results @ [next_uid dm..<next_uid dm + length ys]
       \<and> map fst results'
           = map fst results @ [length (messages dm) + 1..<length (messages dm) + 1 + length ys]"
  using assms
proof (induction ys arbitrary: dm results source_uids)
  case Nil
  then show ?case by simp
next
  case (Cons p rest)
  obtain dm1 results1 source_uids1 where
    st: "copy_step dest sel p (dm, results, source_uids) = (dm1, results1, source_uids1)"
    by (cases "copy_step dest sel p (dm, results, source_uids)") auto
  note a = copy_step_frame[OF st]
  from Cons.prems st have
    "fold (copy_step dest sel) rest (dm1, results1, source_uids1) = (dm', results', source_uids')"
    by simp
  from Cons.IH[OF this] a show ?case
    by (simp add: upt_shift upt_shift2 ivl_shift case_prod_unfold del: upt_Suc)
qed

lemma copy_fold_inv:
  assumes "fold (copy_step dest sel) ys (dm, results, source_uids) = (dm', results', source_uids')"
     "mailbox_inv dm"
  shows "mailbox_inv dm' \<and> next_uid dm \<le> next_uid dm'"
proof -
  note fr = copy_fold_frame[OF assms(1)]
  from fr have "mailbox_inv dm'"
    by (intro mailbox_inv_extend[OF assms(2), of dm' "length ys"]) simp_all
  with fr show ?thesis by simp
qed

lemma del_slice_set: "set (del_slice i xs) \<subseteq> set xs"
  unfolding del_slice_def by (auto dest: in_set_takeD in_set_dropD)

lemma del_slice_sorted:
  assumes "sorted_wrt R xs"
  shows "sorted_wrt R (del_slice i xs)"
proof -
  have "sorted_wrt R (take i xs @ drop i xs)" using assms by simp
  then have "sorted_wrt R (take i xs)" "sorted_wrt R (drop i xs)"
     "\<forall>x \<in> set (take i xs). \<forall>y \<in> set (drop i xs). R x y"
    unfolding sorted_wrt_append by auto
  moreover have "set (drop (i + 1) xs) \<subseteq> set (drop i xs)"
    by (rule set_drop_subset_set_drop) simp
  moreover have "sorted_wrt R (drop (i + 1) xs)"
    using assms by (rule sorted_wrt_drop)
  ultimately show ?thesis
    unfolding del_slice_def sorted_wrt_append by auto
qed

lemma expunge_loop_inv:
  assumes "expunge_loop mbx sel idxs expunged st_msgs = ((expunged', st_msgs'), err)"
     "sorted_wrt (<) (map uid st_msgs)" "\<forall>msg \<in> set st_msgs. uid msg < n"
  shows "sorted_wrt (<) (map uid st_msgs') \<and> (\<forall>msg \<in> set st_msgs'. uid msg < n)"
  using assms
proof (induction idxs arbitrary: expunged st_msgs)
  case Nil
  then show ?case by simp
next
  case (Cons msg_idx rest)
  have d: "sorted_wrt (<) (map uid (del_slice msg_idx st_msgs))"
     "\<forall>msg \<in> set (del_slice msg_idx st_msgs). uid msg < n"
    using Cons.prems(2,3) del_slice_set[of msg_idx st_msgs]
      del_slice_sorted[of "\<lambda>x y. uid x < uid y" st_msgs msg_idx]
    by (auto simp: sorted_wrt_map)
  show ?case
  proof (cases "py_getitem (mbx_messages mbx) (int msg_idx)")
    case (Inl e)
    with Cons.prems show ?thesis by simp
  next
    case (Inr msg)
    show ?thesis
    proof (cases "Deleted \<in> get_flags msg sel")
      case True
      with Inr Cons.prems(1) have
        "expunge_loop mbx sel rest (AList.update (msg_idx + 1) (uid msg) expunged)
           (del_slice msg_idx st_msgs) = ((expunged', st_msgs'), err)"
        by simp
      from Cons.IH[OF this d] show ?thesis .
    next
      case False
      with Inr Cons.prems(1) have
        "expunge_loop mbx sel rest expunged st_msgs = ((expunged', st_msgs'), err)"
        by simp
      from Cons.IH[OF this Cons.prems(2,3)] show ?thesis .
    qed
  qed
qed

lemma store_message_uids: "map uid (store_message msg' msgs) = map uid msgs"
  unfolding store_message_def by (induction msgs) auto

lemma update_flags_step_frame:
  assumes "update_flags_step mbx sid flag_set mode p (m, objs, results) = (m1, objs1, results1)"
  shows "next_uid m1 = next_uid m" "map uid (messages m1) = map uid (messages m)"
     "sessions m1 = sessions m" "recent m1 = recent m"
proof -
  obtain msg_seq msg where p: "p = (msg_seq, msg)" by (cases p) auto
  from assms have "m1 = m\<lparr>messages := store_message (mailbox_update_flags mbx msg flag_set mode) (messages m)\<rparr>"
    unfolding p by (simp add: update_flags_step_def Let_def)
  then show "next_uid m1 = next_uid m" "map uid (messages m1) = map uid (messages m)"
     "sessions m1 = sessions m" "recent m1 = recent m"
    by (simp_all add: store_message_uids)
qed

lemma update_flags_fold_frame:
  assumes "fold (update_flags_step mbx sid flag_set mode) ys (m, objs, results) = (m', objs', results')"
  shows "next_uid m' = next_uid m \<and> map uid (messages m') = map uid (messages m)
     \<and> sessions m' = sessions m \<and> recent m' = recent m"
  using assms
proof (induction ys arbitrary: m objs results)
  case Nil
  then show ?case by simp
next
  case (Cons p rest)
  obtain m1 objs1 results1 where
    st: "update_flags_step mbx sid flag_set mode p (m, objs, results) = (m1, objs1, results1)"
    by (cases "update_flags_step mbx sid flag_set mode p (m, objs, results)") auto
  from Cons.prems st have
    "fold (update_flags_step mbx sid flag_set mode) rest (m1, objs1, results1) = (m', objs', results')"
    by simp
  from Cons.IH[OF this] update_flags_step_frame[OF st] show ?case by simp
qed

lemma replaces_entry_inv:
  assumes "replaces_entry exact s s'" "state_inv s"
  shows "state_inv s'"
  using assms unfolding replaces_entry_def state_inv_def
  by (auto split: if_splits)

lemma replaces_entry_next_uid:
  assumes "replaces_entry exact s s'" "mailboxes s name = Some m" "mailboxes s' name = Some m'"
  shows "next_uid m \<le> next_uid m'" "exact \<Longrightarrow> next_uid m' = next_uid m"
  using assms unfolding replaces_entry_def
  by (auto split: if_splits)

lemma replaces_entryI:
  assumes "mailboxes s name = Some m"
     "s' = s\<lparr>mailboxes := (mailboxes s)(name \<mapsto> m'), selected_objs := objs'\<rparr>"
     "mailbox_inv m \<Longrightarrow> mailbox_inv m'" "next_uid m \<le> next_uid m'"
     "exact \<Longrightarrow> next_uid m' = next_uid m"
  shows "replaces_entry exact s s'"
  unfolding replaces_entry_def using assms by blast

lemma check_selected_Inr:
  assumes "check_selected self_mailboxes s sid = Inr (mbx, sid')"
  shows "sid' = sid" "self_mailboxes (sel_name (selected_objs s sid)) = Some mbx"
    "\<exists>m. mailboxes s (sel_name (selected_objs s sid)) = Some m"
  using assms
  by (auto simp: check_selected_def Let_def split: if_splits option.splits)

lemma get_mailbox_Inr:
  assumes "get_mailbox load self_mailboxes name selected s = Inr (mbx, u)"
  shows "\<exists>m. mailboxes s name = Some m"
    "mbx = (case self_mailboxes name of Some mbx \<Rightarrow> mbx | None \<Rightarrow> load name s)"
  using assms
  by (auto simp: get_mailbox_def split: if_splits option.splits)

lemma append_messages_replaces:
  "replaces_entry False s (fst (append_messages load self_mailboxes name msgs selected s))"
proof (cases "mailboxes s name")
  case None
  then show ?thesis
    by (simp add: append_messages_def get_mailbox_def replaces_entry_def)
next
  case (Some m)
  define mbx where "mbx = (case self_mailboxes name of Some mbx \<Rightarrow> mbx | None \<Rightarrow> load name s)"
  obtain m' objs' msg_uids where
    f: "fold (append_step mbx) msgs (m, selected_objs s, []) = (m', objs', msg_uids)"
    by (cases "fold (append_step mbx) msgs (m, selected_objs s, [])") auto
  have s': "fst (append_messages load self_mailboxes name msgs selected s)
      = s\<lparr>mailboxes := (mailboxes s)(name \<mapsto> m'), selected_objs := objs'\<rparr>"
    unfolding append_messages_unfold[OF Some] mbx_def[symmetric] by (simp add: f Let_def)
  show ?thesis
    using append_fold_inv[OF f] append_fold_frame[OF f]
    by (intro replaces_entryI[OF Some s']) simp_all
qed

lemma copy_messages_replaces:
  "replaces_entry False s (fst (copy_messages load self_mailboxes selected sequences mailbox s))"
proof (cases "check_selected self_mailboxes s selected")
  case (Inl e)
  then show ?thesis by (simp add: copy_messages_def replaces_entry_def)
next
  case (Inr a)
  obtain mbx sid' where a: "a = (mbx, sid')" by (cases a) auto
  show ?thesis
  proof (cases "get_mailbox load self_mailboxes mailbox (Some sid') s")
    case (Inl e)
    then show ?thesis using Inr a by (simp add: copy_messages_def replaces_entry_def)
  next
    case gm: (Inr b)
    obtain dest u where b: "b = (dest, u)" by (cases b) auto
    from get_mailbox_Inr(1)[OF gm[unfolded b]] obtain dm where dm: "mailboxes s mailbox = Some dm"
      by blast
    obtain ys err where it: "iter_messages mbx sequences = (ys, err)"
      by (cases "iter_messages mbx sequences") auto
    obtain dm' results source_uids where
      f: "fold (copy_step dest (selected_objs s sid')) ys (dm, [], []) = (dm', results, source_uids)"
      by (cases "fold (copy_step dest (selected_objs s sid')) ys (dm, [], [])") auto
    obtain rc objs' where
      n: "copy_notify results (sessions dm') (recent dm', selected_objs s) = (rc, objs')"
      by (cases "copy_notify results (sessions dm') (recent dm', selected_objs s)") auto
    note inv = copy_fold_inv[OF f] copy_fold_frame[OF f]
    show ?thesis
    proof (cases err)
      case None
      have s': "fst (copy_messages load self_mailboxes selected sequences mailbox s)
          = s\<lparr>mailboxes := (mailboxes s)(mailbox \<mapsto> dm'\<lparr>recent := rc\<rparr>), selected_objs := objs'\<rparr>"
        by (simp add: copy_messages_def Inr a gm b dm it f n None Let_def)
      show ?thesis
        using inv by (intro replaces_entryI[OF dm s']) (simp_all add: mailbox_inv_def)
    next
      case (Some e)
      have s': "fst (copy_messages load self_mailboxes selected sequences mailbox s)
          = s\<lparr>mailboxes := (mailboxes s)(mailbox \<mapsto> dm'), selected_objs := selected_objs s\<rparr>"
        by (simp add: copy_messages_def Inr a gm b dm it f Some Let_def)
      show ?thesis
        using inv by (intro replaces_entryI[OF dm s']) simp_all
    qed
  qed
qed

lemma expunge_mailbox_replaces:
  "replaces_entry True s (fst (expunge_mailbox self_mailboxes selected uid_set s))"
proof (cases "check_selected self_mailboxes s selected")
  case (Inl e)
  then show ?thesis by (simp add: expunge_mailbox_def replaces_entry_def)
next
  case (Inr a)
  obtain mbx sid' where a: "a = (mbx, sid')" by (cases a) auto
  note cs = check_selected_Inr[OF Inr[unfolded a]]
  define name where "name = sel_name (selected_objs s selected)"
  from cs(3) obtain m where m: "mailboxes s name = Some m" unfolding name_def by blast
  obtain expunged st_msgs err where
    l: "expunge_loop mbx (selected_objs s selected) (expunge_indices mbx uid_set) [] (messages m)
         = ((expunged, st_msgs), err)"
    by (cases "expunge_loop mbx (selected_objs s selected) (expunge_indices mbx uid_set) [] (messages m)")
       auto
  have "\<exists>objs'. fst (expunge_mailbox self_mailboxes selected uid_set s)
      = s\<lparr>mailboxes := (mailboxes s)(name \<mapsto> m\<lparr>messages := st_msgs\<rparr>), selected_objs := objs'\<rparr>"
  proof (cases "err = None \<and> expunged \<noteq> []")
    case True
    then show ?thesis
      using m l unfolding name_def
      by (auto simp: expunge_mailbox_def Inr a cs(1) Let_def)
  next
    case False
    then have "fst (expunge_mailbox self_mailboxes selected uid_set s)
      = s\<lparr>mailboxes := (mailboxes s)(name \<mapsto> m\<lparr>messages := st_msgs\<rparr>),
           selected_objs := selected_objs s\<rparr>"
      using m l unfolding name_def
      by (cases err) (auto simp: expunge_mailbox_def Inr a cs(1) Let_def)
    then show ?thesis by blast
  qed
  then obtain objs' where s': "fst (expunge_mailbox self_mailboxes selected uid_set s)
      = s\<lparr>mailboxes := (mailboxes s)(name \<mapsto> m\<lparr>messages := st_msgs\<rparr>), selected_objs := objs'\<rparr>"
    by blast
  have "mailbox_inv (m\<lparr>messages := st_msgs\<rparr>)" if "mailbox_inv m"
    using expunge_loop_inv[OF l, of "next_uid m"] that
    by (simp add: mailbox_inv_def list_all_iff)
  then show ?thesis
    by (intro replaces_entryI[OF m s']) simp_all
qed

lemma update_flags_replaces:
  "replaces_entry True s (fst (update_flags self_mailboxes selected sequences flag_set mode s))"
proof (cases "check_selected self_mailboxes s selected")
  case (Inl e)
  then show ?thesis by (simp add: update_flags_def replaces_entry_def)
next
  case (Inr a)
  obtain mbx sid' where a: "a = (mbx, sid')" by (cases a) auto
  note cs = check_selected_Inr[OF Inr[unfolded a]]
  define name where "name = sel_name (selected_objs s selected)"
  from cs(3) obtain m where m: "mailboxes s name = Some m" unfolding name_def by blast
  obtain ys err where it: "iter_messages mbx sequences = (ys, err)"
    by (cases "iter_messages mbx sequences") auto
  obtain m' objs' results where
    f: "fold (update_flags_step mbx selected flag_set mode) ys (m, selected_objs s, []) = (m', objs', results)"
    by (cases "fold (update_flags_step mbx selected flag_set mode) ys (m, selected_objs s, [])") auto
  have s': "fst (update_flags self_mailboxes selected sequences flag_set mode s)
      = s\<lparr>mailboxes := (mailboxes s)(name \<mapsto> m'), selected_objs := objs'\<rparr>"
    using m unfolding name_def
    by (cases err) (simp_all add: update_flags_def Inr a cs(1) it f Let_def)
  note fr = update_flags_fold_frame[OF f]
  have "mailbox_inv m'" if "mailbox_inv m"
    using that fr by (simp add: mailbox_inv_iff)
  then show ?thesis
    using fr by (intro replaces_entryI[OF m s']) simp_all
qed

lemma mailbox_inv_subscribed: "mailbox_inv (m\<lparr>subscribed := b\<rparr>) = mailbox_inv m"
  by (simp add: mailbox_inv_def)

lemma replaces_entry_uids:
  assumes "replaces_entry exact s s'" "state_inv s"
  shows "state_inv s' \<and>
     (\<forall>name m m'. mailboxes s name = Some m \<longrightarrow> mailboxes s' name = Some m' \<longrightarrow>
          next_uid m \<le> next_uid m' \<and> (exact \<longrightarrow> next_uid m' = next_uid m))"
  using replaces_entry_inv[OF assms] replaces_entry_next_uid[OF assms(1)]
  by blast

lemma registry_change_uids:
  assumes "state_inv s"
    and "\<And>name m'. mailboxes s' name = Some m' \<Longrightarrow> mailboxes s name \<noteq> Some m' \<Longrightarrow>
           mailbox_inv m' \<and> (\<forall>m. mailboxes s name = Some m \<longrightarrow> next_uid m' = next_uid m)"
  shows "state_inv s' \<and>
     (\<forall>name m m'. mailboxes s name = Some m \<longrightarrow> mailboxes s' name = Some m' \<longrightarrow>
          next_uid m \<le> next_uid m' \<and> (exact \<longrightarrow> next_uid m' = next_uid m))"
proof (intro conjI allI impI)
  show "state_inv s'"
    unfolding state_inv_def
  proof (intro allI impI)
    fix name m' assume a: "mailboxes s' name = Some m'"
    show "mailbox_inv m'"
    proof (cases "mailboxes s name = Some m'")
      case True
      with assms(1) show ?thesis unfolding state_inv_def by blast
    next
      case False
      from assms(2)[OF a False] show ?thesis by blast
    qed
  qed
next
  fix name m m' assume a: "mailboxes s name = Some m" "mailboxes s' name = Some m'"
  have "next_uid m' = next_uid m"
  proof (cases "mailboxes s name = Some m'")
    case True
    with a show ?thesis by simp
  next
    case False
    from assms(2)[OF a(2) False] a(1) show ?thesis by blast
  qed
  then show "next_uid m \<le> next_uid m'" "next_uid m' = next_uid m" by simp_all
qed

lemma create_mailbox_uids:
  assumes "state_inv s" "mailbox_inv fresh"
  shows "state_inv (fst (create_mailbox fresh name selected s)) \<and>
     (\<forall>n m m'. mailboxes s n = Some m \<longrightarrow> mailboxes (fst (create_mailbox fresh name selected s)) n = Some m' \<longrightarrow>
          next_uid m \<le> next_uid m' \<and> (True \<longrightarrow> next_uid m' = next_uid m))"
proof (rule registry_change_uids[OF assms(1)])
  fix n m' assume "mailboxes (fst (create_mailbox fresh name selected s)) n = Some m'"
     "mailboxes s n \<noteq> Some m'"
  then show "mailbox_inv m' \<and> (\<forall>m. mailboxes s n = Some m \<longrightarrow> next_uid m' = next_uid m)"
    using assms(2) by (cases "mailboxes s name") (auto simp: create_mailbox_def Let_def split: if_splits)
qed

lemma delete_mailbox_uids:
  assumes "state_inv s"
  shows "state_inv (fst (fst (delete_mailbox self_mailboxes name selected s))) \<and>
     (\<forall>n m m'. mailboxes s n = Some m \<longrightarrow>
          mailboxes (fst (fst (delete_mailbox self_mailboxes name selected s))) n = Some m' \<longrightarrow>
          next_uid m \<le> next_uid m' \<and> (True \<longrightarrow> next_uid m' = next_uid m))"
proof (rule registry_change_uids[OF assms(1)])
  fix n m' assume "mailboxes (fst (fst (delete_mailbox self_mailboxes name selected s))) n = Some m'"
     "mailboxes s n \<noteq> Some m'"
  then show "mailbox_inv m' \<and> (\<forall>m. mailboxes s n = Some m \<longrightarrow> next_uid m' = next_uid m)"
    by (cases "mailboxes s name") (auto simp: delete_mailbox_def Let_def split: if_splits)
qed

lemma rename_mailbox_uids:
  assumes "state_inv s"
  shows "state_inv (fst (rename_mailbox before_name after_name selected s)) \<and>
     (\<forall>n m m'. mailboxes s n = Some m \<longrightarrow>
          mailboxes (fst (rename_mailbox before_name after_name selected s)) n = Some m' \<longrightarrow>
          next_uid m \<le> next_uid m' \<and> (True \<longrightarrow> next_uid m' = next_uid m))"
proof (rule registry_change_uids[OF assms(1)])
  fix n m' assume a: "mailboxes (fst (rename_mailbox before_name after_name selected s)) n = Some m'"
     "mailboxes s n \<noteq> Some m'"
  show "mailbox_inv m' \<and> (\<forall>m. mailboxes s n = Some m \<longrightarrow> next_uid m' = next_uid m)"
  proof (cases "mailboxes s after_name")
    case (Some x)
    with a show ?thesis by (simp add: rename_mailbox_def)
  next
    case None
    show ?thesis
    proof (cases "mailboxes s before_name")
      case n: None
      with a None show ?thesis by (simp add: rename_mailbox_def)
    next
      case (Some m0)
      with a None have "n = after_name" "m' = m0"
        by (auto simp: rename_mailbox_def Let_def split: if_splits)
      with Some None assms show ?thesis unfolding state_inv_def by auto
    qed
  qed
qed

lemma rename_mailbox_moves:
  assumes "mailboxes s before_name = Some m" "mailboxes s after_name = None"
  shows "mailboxes (fst (rename_mailbox before_name after_name selected s)) after_name = Some m"
  using assms by (auto simp: rename_mailbox_def Let_def)

lemma subscribe_uids:
  assumes "state_inv s"
  shows "state_inv (fst (subscribe name selected s)) \<and>
     (\<forall>n m m'. mailboxes s n = Some m \<longrightarrow>
          mailboxes (fst (subscribe name selected s)) n = Some m' \<longrightarrow>
          next_uid m \<le> next_uid m' \<and> (True \<longrightarrow> next_uid m' = next_uid m))"
proof (rule registry_change_uids[OF assms(1)])
  fix n m' assume a: "mailboxes (fst (subscribe name selected s)) n = Some m'"
     "mailboxes s n \<noteq> Some m'"
  show "mailbox_inv m' \<and> (\<forall>m. mailboxes s n = Some m \<longrightarrow> next_uid m' = next_uid m)"
  proof (cases "mailboxes s name")
    case None
    with a show ?thesis by (simp add: subscribe_def)
  next
    case (Some m0)
    with a have "n = name" "m' = m0\<lparr>subscribed := True\<rparr>"
      by (auto simp: subscribe_def Let_def split: if_splits)
    with Some assms show ?thesis unfolding state_inv_def by (auto simp: mailbox_inv_subscribed)
  qed
qed

lemma unsubscribe_uids:
  assumes "state_inv s"
  shows "state_inv (fst (unsubscribe name selected s)) \<and>
     (\<forall>n m m'. mailboxes s n = Some m \<longrightarrow>
          mailboxes (fst (unsubscribe name selected s)) n = Some m' \<longrightarrow>
          next_uid m \<le> next_uid m' \<and> (True \<longrightarrow> next_uid m' = next_uid m))"
proof (rule registry_change_uids[OF assms(1)])
  fix n m' assume a: "mailboxes (fst (unsubscribe name selected s)) n = Some m'"
     "mailboxes s n \<noteq> Some m'"
  show "mailbox_inv m' \<and> (\<forall>m. mailboxes s n = Some m \<longrightarrow> next_uid m' = next_uid m)"
  proof (cases "mailboxes s name")
    case None
    with a show ?thesis by (simp add: unsubscribe_def)
  next
    case (Some m0)
    with a have "n = name" "m' = m0\<lparr>subscribed := False\<rparr>"
      by (auto simp: unsubscribe_def Let_def split: if_splits)
    with Some assms show ?thesis unfolding state_inv_def by (auto simp: mailbox_inv_subscribed)
  qed
qed

lemma run_op_rename_moves:
  assumes "op = RenameMailbox before_name after_name selected"
      "mailboxes s before_name = Some m" "mailboxes s after_name = None"
  shows "mailboxes (run_op load self_mailboxes op s) after_name = Some m"
  unfolding assms(1) run_op.simps by (rule rename_mailbox_moves[OF assms(2,3)])

lemma run_op_uids:
  assumes "state_inv s" and "op_wf op"
  shows "state_inv (run_op load self_mailboxes op s) \<and>
     (\<forall>name m m'. mailboxes s name = Some m \<longrightarrow>
          mailboxes (run_op load self_mailboxes op s) name = Some m' \<longrightarrow>
          next_uid m \<le> next_uid m' \<and> (\<not> allocates_uids op \<longrightarrow> next_uid m' = next_uid m))"
proof (cases op)
  case (AppendMessages name msgs selected)
  from replaces_entry_uids[OF append_messages_replaces assms(1), of load self_mailboxes name msgs selected]
  show ?thesis unfolding AppendMessages run_op.simps allocates_uids.simps by blast
next
  case (CopyMessages selected sequences mailbox)
  from replaces_entry_uids[OF copy_messages_replaces assms(1), of load self_mailboxes selected sequences mailbox]
  show ?thesis unfolding CopyMessages run_op.simps allocates_uids.simps by blast
next
  case (ExpungeMailbox selected uid_set)
  from replaces_entry_uids[OF expunge_mailbox_replaces assms(1), of self_mailboxes selected uid_set]
  show ?thesis unfolding ExpungeMailbox run_op.simps allocates_uids.simps by blast
next
  case (UpdateFlags selected sequences flag_set mode)
  from replaces_entry_uids[OF update_flags_replaces assms(1), of self_mailboxes selected sequences flag_set mode]
  show ?thesis unfolding UpdateFlags run_op.simps allocates_uids.simps by blast
next
  case (CreateMailbox fresh name selected)
  with assms(2) have "mailbox_inv fresh" by simp
  from create_mailbox_uids[OF assms(1) this, of name selected]
  show ?thesis unfolding CreateMailbox run_op.simps allocates_uids.simps by blast
next
  case (DeleteMailbox name selected)
  from delete_mailbox_uids[OF assms(1), of self_mailboxes name selected]
  show ?thesis unfolding DeleteMailbox run_op.simps allocates_uids.simps by blast
next
  case (RenameMailbox before_name after_name selected)
  from rename_mailbox_uids[OF assms(1), of before_name after_name selected]
  show ?thesis unfolding RenameMailbox run_op.simps allocates_uids.simps by blast
next
  case (Subscribe name selected)
  from subscribe_uids[OF assms(1), of name selected]
  show ?thesis unfolding Subscribe run_op.simps allocates_uids.simps by blast
next
  case (Unsubscribe name selected)
  from unsubscribe_uids[OF assms(1), of name selected]
  show ?thesis unfolding Unsubscribe run_op.simps allocates_uids.simps by blast
qed

text \<open>
  Claim C1. Every operation of a session whose writes to the shared state are in the
  sources (all but \<^verbatim>\<open>select_mailbox\<close>, which registers the selection through code that
  is not at hand) keeps the invariant of every mailbox: the UIDs of the message list
  increase strictly with the index and each is below \<^verbatim>\<open>next_uid\<close>.
  No operation lowers \<^verbatim>\<open>next_uid\<close> of a mailbox that is there before and after it, and
  only \<^verbatim>\<open>append_messages\<close> and \<^verbatim>\<open>copy_messages\<close> change it at all; a rename moves the
  state of the mailbox, \<^verbatim>\<open>next_uid\<close> included, to the new name. This holds whether the
  operation returns or raises, \<^verbatim>\<open>expunge_mailbox\<close> included.
\<close>

theorem session_ops_keep_uid_invariant:
  assumes "state_inv s" and "op_wf op"
  shows "state_inv (run_op load self_mailboxes op s) \<and>
     (\<forall>name m m'. mailboxes s name = Some m \<longrightarrow>
          mailboxes (run_op load self_mailboxes op s) name = Some m' \<longrightarrow>
          next_uid m \<le> next_uid m' \<and> (\<not> allocates_uids op \<longrightarrow> next_uid m' = next_uid m)) \<and>
     (\<forall>before_name after_name selected m.
          op = RenameMailbox before_name after_name selected \<longrightarrow>
          mailboxes s before_name = Some m \<longrightarrow> mailboxes s after_name = None \<longrightarrow>
          mailboxes (run_op load self_mailboxes op s) after_name = Some m)"
  using run_op_uids[OF assms, of load self_mailboxes] run_op_rename_moves[of op _ _ _ s _ load self_mailboxes]
  by blast

lemma ex_upt4: "[0..<4] = [0, 1, 2, 3]"
  by (simp add: upt_rec)

lemma ex_inbox_inv: "mailbox_inv (ex_inbox sids)"
  by (simp add: mailbox_inv_def ex_inbox_def ex_msg_def)

lemma ex_state_inv: "state_inv (ex_state sids)"
  by (simp add: state_inv_def ex_state_def ex_inbox_inv)

lemma ex_expunge_eval:
  "fst (expunge_mailbox [''INBOX'' \<mapsto> ex_view (ex_inbox sids)] sid None (ex_state sids))
     = (ex_state sids)\<lparr>mailboxes := [''INBOX'' \<mapsto> (ex_inbox sids)\<lparr>messages := [ex_msg 101 {}, ex_msg 103 {Seen}]\<rparr>],
          selected_objs := for_each_session
             (\<lambda>_ session. updated_set (remove_message 4 104 (remove_message 2 102 session)))
             sids (\<lambda>_. ex_selected ''INBOX'')\<rparr>"
proof -
  have n: "Suc (Suc 0) = 2" "Suc (Suc (Suc (Suc 0))) = 4" by simp_all
  show ?thesis
    by (simp add: expunge_mailbox_def check_selected_def ex_state_def ex_selected_def ex_view_def
      ex_inbox_def ex_msg_def expunge_indices_def ex_upt4 py_getitem_def get_flags_def del_slice_def
      Let_def n)
qed

theorem session_ops_keep_uid_invariant_witness:
  "state_inv (ex_state [1]) \<and> op_wf (ExpungeMailbox 1 None :: unit session_op)
   \<and> state_inv (run_op ex_load [''INBOX'' \<mapsto> ex_view (ex_inbox [1])]
         (ExpungeMailbox 1 None :: unit session_op) (ex_state [1]))
   \<and> (\<exists>m'. mailboxes (run_op ex_load [''INBOX'' \<mapsto> ex_view (ex_inbox [1])]
         (ExpungeMailbox 1 None :: unit session_op) (ex_state [1])) ''INBOX'' = Some m'
         \<and> map uid (messages m') = [101, 103] \<and> next_uid m' = 105)"
proof -
  have w: "op_wf (ExpungeMailbox 1 None :: unit session_op)" by simp
  from session_ops_keep_uid_invariant[OF ex_state_inv w, of ex_load "[''INBOX'' \<mapsto> ex_view (ex_inbox [1])]"]
  have "state_inv (run_op ex_load [''INBOX'' \<mapsto> ex_view (ex_inbox [1])]
         (ExpungeMailbox 1 None :: unit session_op) (ex_state [1]))"
    by blast
  moreover have "\<exists>m'. mailboxes (run_op ex_load [''INBOX'' \<mapsto> ex_view (ex_inbox [1])]
         (ExpungeMailbox 1 None :: unit session_op) (ex_state [1])) ''INBOX'' = Some m'
         \<and> map uid (messages m') = [101, 103] \<and> next_uid m' = 105"
    by (simp only: run_op.simps ex_expunge_eval) (simp add: ex_inbox_def ex_msg_def)
  ultimately show ?thesis using ex_state_inv w by blast
qed

section \<open>Expunge: what is removed and what the sessions are told\<close>





















text \<open>
  Why a UID expunge is given a set that yields its UIDs in ascending order. The loop walks
  the indices in the reverse of the order in which the set yields the UIDs, and every
  deletion hits the shared list at the index that the message has in the view. With a
  set that yields 104 before 102, message 102 is deleted first, the list is then too
  short for the index of 104, and 104 stays in the mailbox although its removal is told
  to the sessions.
\<close>

lemma uid_expunge_descending_set:
  "mailboxes (fst (expunge_mailbox [''INBOX'' \<mapsto> ex_view (ex_inbox [2, 3])] 2
       (Some ex_uids_desc) (ex_state [2, 3]))) ''INBOX''
      = Some ((ex_inbox [2, 3])
               \<lparr>messages := [ex_msg 101 {}, ex_msg 103 {Seen}, ex_msg 104 {Deleted}]\<rparr>)
   \<and> pending (selected_objs (fst (expunge_mailbox [''INBOX'' \<mapsto> ex_view (ex_inbox [2, 3])] 2
       (Some ex_uids_desc) (ex_state [2, 3]))) 3) = [Expunge 2, Expunge 4]"
proof -
  have n: "Suc (Suc 0) = 2" "Suc (Suc (Suc (Suc 0))) = 4" by simp_all
  show ?thesis
    by (simp add: expunge_mailbox_def check_selected_def ex_state_def ex_selected_def ex_view_def
      ex_inbox_def ex_msg_def ex_uids_desc_def expunge_indices_def ex_upt4 py_getitem_def
      get_flags_def del_slice_def Let_def n for_each_session_def remove_message_def updated_set_def)
qed


section \<open>Copy: who claims the new messages as recent\<close>

lemma copy_notify_one_eq:
  "copy_notify_one (msg_seq, msg) (rc, session) =
     (rc - {uid msg},
      session\<lparr>session_flags :=
                 (if uid msg \<in> rc
                  then (session_flags session)(uid msg := insert Recent (session_flags session (uid msg)))
                  else session_flags session),
              pending := pending session @
                 [Fetch msg_seq (persistent_flags msg \<union>
                     (if uid msg \<in> rc then insert Recent (session_flags session (uid msg))
                      else session_flags session (uid msg)))],
              updated := True\<rparr>)"
  by (auto simp: copy_notify_one_def add_recent_def add_fetch_def get_flags_def Let_def)

text \<open>
  The inner loop of the fan-out of a copy, on one session object: which UIDs the object
  claims, what is enqueued, and what is left of the recent set.
\<close>

lemma copy_notify_inner:
  assumes "distinct (map (\<lambda>p. uid (snd p)) results)"
      and "fold copy_notify_one results (rc, session) = (rc', session')"
  shows "rc' = rc - set (map (\<lambda>p. uid (snd p)) results)
    \<and> session_flags session' =
           (\<lambda>u. if u \<in> set (map (\<lambda>p. uid (snd p)) results) \<and> u \<in> rc
                then insert Recent (session_flags session u) else session_flags session u)
    \<and> pending session' = pending session @
           map (\<lambda>p. Fetch (fst p) (get_flags (snd p) session')) results
    \<and> updated session' = (updated session \<or> results \<noteq> [])
    \<and> sel_name session' = sel_name session"
  using assms
proof (induction results arbitrary: rc session)
  case Nil
  then show ?case by simp
next
  case (Cons p rest)
  obtain msg_seq msg where p: "p = (msg_seq, msg)" by (cases p) auto
  define rc1 where "rc1 = rc - {uid msg}"
  define s1 where "s1 = snd (copy_notify_one (msg_seq, msg) (rc, session))"
  have st: "copy_notify_one p (rc, session) = (rc1, s1)"
    unfolding p rc1_def s1_def by (simp add: copy_notify_one_eq)
  have s1: "session_flags s1 =
                 (if uid msg \<in> rc
                  then (session_flags session)(uid msg := insert Recent (session_flags session (uid msg)))
                  else session_flags session)"
     "pending s1 = pending session @
                 [Fetch msg_seq (persistent_flags msg \<union>
                     (if uid msg \<in> rc then insert Recent (session_flags session (uid msg))
                      else session_flags session (uid msg)))]"
     "updated s1" "sel_name s1 = sel_name session"
    unfolding s1_def by (simp_all add: copy_notify_one_eq)
  from Cons.prems have d: "distinct (map (\<lambda>p. uid (snd p)) rest)" and
       n: "uid msg \<notin> set (map (\<lambda>p. uid (snd p)) rest)" and
       f: "fold copy_notify_one rest (rc1, s1) = (rc', session')"
    by (simp_all add: st[unfolded p] p)
  note ih = Cons.IH[OF d f]
  have a: "rc' = rc - set (map (\<lambda>p. uid (snd p)) (p # rest))"
    using ih by (auto simp: rc1_def p)
  have b: "session_flags session' =
           (\<lambda>u. if u \<in> set (map (\<lambda>p. uid (snd p)) (p # rest)) \<and> u \<in> rc
                then insert Recent (session_flags session u) else session_flags session u)"
    using ih n by (auto simp: rc1_def p s1 fun_eq_iff)
  have x: "session_flags session' (uid msg) = session_flags s1 (uid msg)"
    using ih n by simp
  have gf: "get_flags msg session' = persistent_flags msg \<union>
                     (if uid msg \<in> rc then insert Recent (session_flags session (uid msg))
                      else session_flags session (uid msg))"
    unfolding get_flags_def x by (simp add: s1(1))
  from ih have pe: "pending session' = pending s1 @
           map (\<lambda>p. Fetch (fst p) (get_flags (snd p) session')) rest"
    by blast
  have c: "pending session' = pending session @
           map (\<lambda>p. Fetch (fst p) (get_flags (snd p) session')) (p # rest)"
    unfolding pe s1(2) p by (simp add: gf)
  have e: "updated session' = (updated session \<or> p # rest \<noteq> [])" "sel_name session' = sel_name session"
    using ih by (simp_all add: s1)
  from a b c e show ?case by blast
qed

text \<open>The fan-out of a copy over the registered sessions.\<close>

lemma copy_notify_sessions:
  assumes "distinct (map (\<lambda>p. uid (snd p)) results)" "distinct sids"
      and "copy_notify results sids (rc, objs) = (rc', objs')"
  shows "rc' = (if sids = [] then rc else rc - set (map (\<lambda>p. uid (snd p)) results))
    \<and> (\<forall>sid. objs' sid =
          (if sid \<in> set sids
           then updated_set (snd (fold copy_notify_one results
                  (if sid = hd sids then rc else rc - set (map (\<lambda>p. uid (snd p)) results), objs sid)))
           else objs sid))"
  using assms(2,3)
proof (induction sids arbitrary: rc objs)
  case Nil
  then show ?case by simp
next
  case (Cons sid0 rest)
  let ?U = "set (map (\<lambda>p. uid (snd p)) results)"
  obtain rc1 s1 where f: "fold copy_notify_one results (rc, objs sid0) = (rc1, s1)"
    by (cases "fold copy_notify_one results (rc, objs sid0)") auto
  from copy_notify_inner[OF assms(1) f] have rc1: "rc1 = rc - ?U" by simp
  from Cons.prems f have
    r: "copy_notify results rest (rc1, objs(sid0 := updated_set s1)) = (rc', objs')"
    and d: "distinct rest" and n: "sid0 \<notin> set rest"
    by simp_all
  note ih = Cons.IH[OF d r]
  have a: "rc' = rc - ?U" using ih by (auto simp: rc1)
  have b: "objs' sid =
          (if sid \<in> set (sid0 # rest)
           then updated_set (snd (fold copy_notify_one results
                  (if sid = hd (sid0 # rest) then rc else rc - ?U, objs sid)))
           else objs sid)" for sid
  proof (cases "sid = sid0")
    case True
    with ih n f show ?thesis by simp
  next
    case False
    have "rc1 - ?U = rc1" by (auto simp: rc1)
    with ih False show ?thesis by (simp add: rc1)
  qed
  from a b show ?case by simp
qed

lemma copy_notify_session_obj:
  assumes "distinct (map (\<lambda>p. uid (snd p)) results)"
      and "obj' = updated_set (snd (fold copy_notify_one results (rc, obj)))"
  shows "session_flags obj' =
           (\<lambda>u. if u \<in> set (map (\<lambda>p. uid (snd p)) results) \<and> u \<in> rc
                then insert Recent (session_flags obj u) else session_flags obj u)
    \<and> pending obj' = pending obj @ map (\<lambda>p. Fetch (fst p) (get_flags (snd p) obj')) results
    \<and> updated obj'"
proof -
  obtain rc2 s2 where f: "fold copy_notify_one results (rc, obj) = (rc2, s2)"
    by (cases "fold copy_notify_one results (rc, obj)") auto
  have o: "obj' = updated_set s2" by (simp add: assms(2) f)
  have g: "get_flags msg (updated_set s2) = get_flags msg s2" for msg
    by (simp add: get_flags_def updated_set_def)
  from copy_notify_inner[OF assms(1) f] show ?thesis
    unfolding o g by (simp add: updated_set_def)
qed

lemma copy_messages_run:
  assumes "check_selected self_mailboxes s selected = Inr (mbx, selected)"
      and "get_mailbox load self_mailboxes mailbox (Some selected) s = Inr (dest, u)"
      and "mailboxes s mailbox = Some dm"
      and "iter_messages mbx sequences = (ys, None)"
      and "fold (copy_step dest (selected_objs s selected)) ys (dm, [], []) = (dm', results, source_uids)"
      and "copy_notify results (sessions dm') (recent dm', selected_objs s) = (rcf, objs')"
  shows "copy_messages load self_mailboxes selected sequences mailbox s =
      (s\<lparr>mailboxes := (mailboxes s)(mailbox \<mapsto> dm'\<lparr>recent := rcf\<rparr>), selected_objs := objs'\<rparr>,
       Inr (if source_uids \<noteq> [] \<and> map (\<lambda>(_, msg). uid msg) results \<noteq> []
            then Some (mbx_uid_validity dest, source_uids, map (\<lambda>(_, msg). uid msg) results)
            else None, selected))"
  by (simp add: copy_messages_def assms Let_def)

text \<open>
  Claim C5, as amended. A \<^verbatim>\<open>copy_messages\<close> that runs to its end appends one message per
  source message to the destination, with the next UIDs of the destination in order.
  The new UIDs end up in the recent set of the destination if and only if no session is
  registered on it. If sessions are registered, the first of them in the order of the
  registry claims Recent for every new UID in its overlay and the others claim none;
  every registered session is enqueued a \<^verbatim>\<open>Fetch\<close> per copied message and has
  \<^verbatim>\<open>updated\<close> set, and no other object changes. The result is
  \<^verbatim>\<open>CopyUid(uid_validity, source_uids, dest_uids)\<close>, with the validity the view of the
  destination shows, when a message was copied, and \<^verbatim>\<open>None\<close> when none matched.
\<close>

theorem copy_messages_recent:
  assumes "check_selected self_mailboxes s selected = Inr (mbx, selected)"
      and "get_mailbox load self_mailboxes mailbox (Some selected) s = Inr (dest, u)"
      and "mailboxes s mailbox = Some dm"
      and "iter_messages mbx sequences = (ys, None)"
      and "distinct (sessions dm)"
      and "fold (copy_step dest (selected_objs s selected)) ys (dm, [], []) = (dm', results, source_uids)"
  shows "snd (copy_messages load self_mailboxes selected sequences mailbox s) =
           Inr (if ys = [] then None
                else Some (mbx_uid_validity dest, map (\<lambda>p. uid (snd p)) ys,
                           [next_uid dm..<next_uid dm + length ys]),
                selected)
     \<and> (\<exists>dmf. mailboxes (fst (copy_messages load self_mailboxes selected sequences mailbox s)) mailbox
                 = Some dmf
           \<and> map uid (messages dmf) = map uid (messages dm) @ [next_uid dm..<next_uid dm + length ys]
           \<and> recent dmf =
                (if sessions dm = [] then recent dm \<union> {next_uid dm..<next_uid dm + length ys}
                 else recent dm - {next_uid dm..<next_uid dm + length ys}))
     \<and> (\<forall>sid.
           if sid \<in> set (sessions dm)
           then session_flags (selected_objs (fst (copy_messages load self_mailboxes selected sequences mailbox s)) sid)
                  = (\<lambda>u. if sid = hd (sessions dm) \<and> u \<in> {next_uid dm..<next_uid dm + length ys}
                          then insert Recent (session_flags (selected_objs s sid) u)
                          else session_flags (selected_objs s sid) u)
              \<and> pending (selected_objs (fst (copy_messages load self_mailboxes selected sequences mailbox s)) sid)
                  = pending (selected_objs s sid) @
                    map (\<lambda>p. Fetch (fst p) (get_flags (snd p)
                           (selected_objs (fst (copy_messages load self_mailboxes selected sequences mailbox s)) sid)))
                      results
              \<and> updated (selected_objs (fst (copy_messages load self_mailboxes selected sequences mailbox s)) sid)
           else selected_objs (fst (copy_messages load self_mailboxes selected sequences mailbox s)) sid
                  = selected_objs s sid)"
proof -
  let ?new = "{next_uid dm..<next_uid dm + length ys}"
  note fr = copy_fold_frame[OF assms(6)]
  from fr have ru: "map (\<lambda>p. uid (snd p)) results = [next_uid dm..<next_uid dm + length ys]"
    by (simp add: case_prod_unfold)
  then have dr: "distinct (map (\<lambda>p. uid (snd p)) results)" and
     U: "set (map (\<lambda>p. uid (snd p)) results) = ?new"
    by simp_all
  from fr have su: "source_uids = map (\<lambda>p. uid (snd p)) ys" by (simp add: case_prod_unfold)
  from fr have ss: "sessions dm' = sessions dm" and rc: "recent dm' = recent dm \<union> ?new" by simp_all
  obtain rcf objs' where
    n: "copy_notify results (sessions dm') (recent dm', selected_objs s) = (rcf, objs')"
    by (cases "copy_notify results (sessions dm') (recent dm', selected_objs s)") auto
  note cn = copy_notify_sessions[OF dr assms(5)[folded ss] n, unfolded U ss rc]
  note r = copy_messages_run[OF assms(1-4) assms(6) n]
  have c1: "snd (copy_messages load self_mailboxes selected sequences mailbox s) =
           Inr (if ys = [] then None
                else Some (mbx_uid_validity dest, map (\<lambda>p. uid (snd p)) ys,
                           [next_uid dm..<next_uid dm + length ys]),
                selected)"
    unfolding r using ru su by (auto simp: case_prod_unfold)
  have rcf: "rcf = (if sessions dm = [] then recent dm \<union> ?new else recent dm - ?new)"
    using cn by auto
  have c2: "\<exists>dmf. mailboxes (fst (copy_messages load self_mailboxes selected sequences mailbox s)) mailbox
                 = Some dmf
           \<and> map uid (messages dmf) = map uid (messages dm) @ [next_uid dm..<next_uid dm + length ys]
           \<and> recent dmf = (if sessions dm = [] then recent dm \<union> ?new else recent dm - ?new)"
    unfolding r using fr rcf by simp
  have c3: "if sid \<in> set (sessions dm)
           then session_flags (objs' sid)
                  = (\<lambda>u. if sid = hd (sessions dm) \<and> u \<in> ?new
                          then insert Recent (session_flags (selected_objs s sid) u)
                          else session_flags (selected_objs s sid) u)
              \<and> pending (objs' sid)
                  = pending (selected_objs s sid) @
                    map (\<lambda>p. Fetch (fst p) (get_flags (snd p) (objs' sid))) results
              \<and> updated (objs' sid)
           else objs' sid = selected_objs s sid" for sid
  proof (cases "sid \<in> set (sessions dm)")
    case False
    with cn show ?thesis by simp
  next
    case True
    define rc0 where "rc0 = (if sid = hd (sessions dm) then recent dm \<union> ?new else recent dm \<union> ?new - ?new)"
    from cn True have o: "objs' sid =
        updated_set (snd (fold copy_notify_one results (rc0, selected_objs s sid)))"
      by (simp add: rc0_def)
    have m: "(u \<in> ?new \<and> u \<in> rc0) = (sid = hd (sessions dm) \<and> u \<in> ?new)" for u
      by (auto simp: rc0_def)
    from copy_notify_session_obj[OF dr o, unfolded U m] True
    show ?thesis by simp
  qed
  show ?thesis
    using c1 c2 c3 unfolding r[THEN arg_cong, of fst, simplified] by simp
qed

lemma ex_msg_sel:
  "uid (ex_msg u fs) = u" "persistent_flags (ex_msg u fs) = fs"
  "contents (ex_msg u fs) = ''body''" "internal_date (ex_msg u fs) = 0"
  by (simp_all add: ex_msg_def)

lemma ex_copy_check:
  "check_selected [''INBOX'' \<mapsto> ex_view (ex_inbox [])] (ex_state2 sids) 4
     = Inr (ex_view (ex_inbox []), 4)"
  by (simp add: check_selected_def ex_state2_def ex_selected_def Let_def)

lemma ex_copy_dest:
  "get_mailbox ex_load [''INBOX'' \<mapsto> ex_view (ex_inbox [])] ''Target'' (Some 4) (ex_state2 sids)
     = Inr (ex_view (ex_target sids), Some 4)"
  by (simp add: get_mailbox_def get_updates_def ex_load_def ex_state2_def ex_selected_def)

lemma ex_copy_iter:
  "iter_messages (ex_view (ex_inbox [])) ex_uids = ([(1, ex_msg 101 {}), (3, ex_msg 103 {Seen})], None)"
  by (simp add: iter_messages_def ex_uids_def ex_view_def ex_inbox_def ex_upt4 py_getitem_def
      ex_msg_sel)

lemma ex_copy_fold:
  "fold (copy_step (ex_view (ex_target sids)) (selected_objs (ex_state2 sids) 4))
      [(1, ex_msg 101 {}), (3, ex_msg 103 {Seen})] (ex_target sids, [], [])
     = ((ex_target sids)\<lparr>next_uid := 12, recent := {10, 11},
            messages := [ex_msg 10 {}, ex_msg 11 {Seen}]\<rparr>,
        [(1, ex_msg 10 {}), (2, ex_msg 11 {Seen})], [101, 103])"
  by (auto simp: copy_step_def increment_next_uid_def ex_target_def ex_state2_def ex_selected_def
      ex_msg_def ex_view_def Message_def mailbox_update_flags_def get_flags_def Let_def)

lemma ex_copy_notify:
  "copy_notify [(1, ex_msg 10 {}), (2, ex_msg 11 {Seen})] [2, 3] ({10, 11}, selected_objs (ex_state2 [2, 3]))
     = ({}, (selected_objs (ex_state2 [2, 3]))
             (2 := (ex_selected ''Target'')
                     \<lparr>session_flags := (\<lambda>u. if u = 10 \<or> u = 11 then {Recent} else {}),
                      pending := [Fetch 1 {Recent}, Fetch 2 {Seen, Recent}], updated := True\<rparr>,
              3 := (ex_selected ''Target'')
                     \<lparr>pending := [Fetch 1 {}, Fetch 2 {Seen}], updated := True\<rparr>))"
proof -
  have o: "selected_objs (ex_state2 [2, 3]) 2 = ex_selected ''Target''"
          "selected_objs (ex_state2 [2, 3]) 3 = ex_selected ''Target''"
    by (simp_all add: ex_state2_def)
  have e: "(session_flags (ex_selected ''Target''))
              (10 := insert Recent (session_flags (ex_selected ''Target'') 10),
               11 := insert Recent (session_flags (ex_selected ''Target'') 11))
           = (\<lambda>u. if u = 10 \<or> u = 11 then {Recent} else {})"
    by (auto simp: ex_selected_def fun_eq_iff)
  show ?thesis
    by (simp add: copy_notify_one_eq ex_msg_sel o updated_set_def e insert_commute)
       (simp add: ex_selected_def)
qed

lemma ex_copy_eval:
  "copy_messages ex_load [''INBOX'' \<mapsto> ex_view (ex_inbox [])] 4 ex_uids ''Target'' (ex_state2 [2, 3])
     = ((ex_state2 [2, 3])
          \<lparr>mailboxes := (mailboxes (ex_state2 [2, 3]))(''Target'' \<mapsto>
               (ex_target [2, 3])\<lparr>next_uid := 12, recent := {},
                  messages := [ex_msg 10 {}, ex_msg 11 {Seen}]\<rparr>),
           selected_objs := (selected_objs (ex_state2 [2, 3]))
             (2 := (ex_selected ''Target'')
                     \<lparr>session_flags := (\<lambda>u. if u = 10 \<or> u = 11 then {Recent} else {}),
                      pending := [Fetch 1 {Recent}, Fetch 2 {Seen, Recent}], updated := True\<rparr>,
              3 := (ex_selected ''Target'')
                     \<lparr>pending := [Fetch 1 {}, Fetch 2 {Seen}], updated := True\<rparr>)\<rparr>,
        Inr (Some (9, [101, 103], [10, 11]), 4))"
proof -
  have t: "mailboxes (ex_state2 [2, 3]) ''Target'' = Some (ex_target [2, 3])"
    by (simp add: ex_state2_def)
  have n: "copy_notify [(1, ex_msg 10 {}), (2, ex_msg 11 {Seen})]
      (sessions ((ex_target [2, 3])\<lparr>next_uid := 12, recent := {10, 11},
            messages := [ex_msg 10 {}, ex_msg 11 {Seen}]\<rparr>))
      (recent ((ex_target [2, 3])\<lparr>next_uid := 12, recent := {10, 11},
            messages := [ex_msg 10 {}, ex_msg 11 {Seen}]\<rparr>), selected_objs (ex_state2 [2, 3]))
     = ({}, (selected_objs (ex_state2 [2, 3]))
             (2 := (ex_selected ''Target'')
                     \<lparr>session_flags := (\<lambda>u. if u = 10 \<or> u = 11 then {Recent} else {}),
                      pending := [Fetch 1 {Recent}, Fetch 2 {Seen, Recent}], updated := True\<rparr>,
              3 := (ex_selected ''Target'')
                     \<lparr>pending := [Fetch 1 {}, Fetch 2 {Seen}], updated := True\<rparr>))"
    using ex_copy_notify by (simp add: ex_target_def)
  show ?thesis
    unfolding copy_messages_run[OF ex_copy_check ex_copy_dest t ex_copy_iter ex_copy_fold n]
    by (simp add: ex_view_def ex_target_def ex_msg_sel)
qed

theorem copy_messages_recent_witness:
  "snd (copy_messages ex_load [''INBOX'' \<mapsto> ex_view (ex_inbox [])] 4 ex_uids ''Target'' (ex_state2 [2, 3]))
     = Inr (Some (9, [101, 103], [10, 11]), 4)
   \<and> session_flags (selected_objs (fst (copy_messages ex_load [''INBOX'' \<mapsto> ex_view (ex_inbox [])] 4
         ex_uids ''Target'' (ex_state2 [2, 3]))) 2) 10 = {Recent}
   \<and> session_flags (selected_objs (fst (copy_messages ex_load [''INBOX'' \<mapsto> ex_view (ex_inbox [])] 4
         ex_uids ''Target'' (ex_state2 [2, 3]))) 3) 10 = {}
   \<and> updated (selected_objs (fst (copy_messages ex_load [''INBOX'' \<mapsto> ex_view (ex_inbox [])] 4
         ex_uids ''Target'' (ex_state2 [2, 3]))) 3)"
proof -
  let ?S = "fst (copy_messages ex_load [''INBOX'' \<mapsto> ex_view (ex_inbox [])] 4 ex_uids ''Target''
       (ex_state2 [2, 3]))"
  have t: "mailboxes (ex_state2 [2, 3]) ''Target'' = Some (ex_target [2, 3])"
    by (simp add: ex_state2_def)
  have d: "distinct (sessions (ex_target [2, 3]))" by (simp add: ex_target_def)
  have v: "mbx_uid_validity (ex_view (ex_target [2, 3])) = 9" "next_uid (ex_target [2, 3]) = 10"
     "sessions (ex_target [2, 3]) = [2, 3]"
    by (simp_all add: ex_view_def ex_target_def)
  have o: "session_flags (selected_objs (ex_state2 [2, 3]) sid) = (\<lambda>_. {})" for sid
    by (simp add: ex_state2_def ex_selected_def)
  note c = copy_messages_recent[OF ex_copy_check ex_copy_dest t ex_copy_iter d ex_copy_fold,
      unfolded v o]
  from c have c1: "snd (copy_messages ex_load [''INBOX'' \<mapsto> ex_view (ex_inbox [])] 4 ex_uids ''Target''
       (ex_state2 [2, 3])) = Inr (Some (9, [101, 103], [10, 11]), 4)"
    by (simp add: ex_msg_sel upt_rec)
  from c have a: "\<forall>sid. if sid \<in> set [2, 3]
           then session_flags (selected_objs ?S sid)
                  = (\<lambda>u. if sid = hd [2, 3] \<and> u \<in> {10..<10 + length [(1::nat, ex_msg 101 {}), (3, ex_msg 103 {Seen})]}
                          then insert Recent {} else {})
              \<and> pending (selected_objs ?S sid)
                  = pending (selected_objs (ex_state2 [2, 3]) sid) @
                    map (\<lambda>p. Fetch (fst p) (get_flags (snd p) (selected_objs ?S sid)))
                      [(1, ex_msg 10 {}), (2, ex_msg 11 {Seen})]
              \<and> updated (selected_objs ?S sid)
           else selected_objs ?S sid = selected_objs (ex_state2 [2, 3]) sid"
    by blast
  from a[rule_format, of 2] have c2: "session_flags (selected_objs ?S 2) 10 = {Recent}"
    by simp
  from a[rule_format, of 3] have c3: "session_flags (selected_objs ?S 3) 10 = {}"
     "updated (selected_objs ?S 3)"
    by simp_all
  from c1 c2 c3 show ?thesis by blast
qed

text \<open>
  Two sessions (objects 2 and 3) are registered on Target when two messages are copied
  into it: the first of them claims Recent for the new UIDs 10 and 11, the second does
  not, and the recent set of Target is left empty.
\<close>

theorem copy_messages_recent_counterexample:
  "sessions (ex_target [2, 3]) = [2, 3]
   \<and> Recent \<in> session_flags (selected_objs (fst (copy_messages ex_load [''INBOX'' \<mapsto> ex_view (ex_inbox [])] 4
         ex_uids ''Target'' (ex_state2 [2, 3]))) 2) 10
   \<and> Recent \<notin> session_flags (selected_objs (fst (copy_messages ex_load [''INBOX'' \<mapsto> ex_view (ex_inbox [])] 4
         ex_uids ''Target'' (ex_state2 [2, 3]))) 3) 10
   \<and> Recent \<notin> session_flags (selected_objs (fst (copy_messages ex_load [''INBOX'' \<mapsto> ex_view (ex_inbox [])] 4
         ex_uids ''Target'' (ex_state2 [2, 3]))) 3) 11"
  by (simp add: ex_copy_eval ex_target_def ex_selected_def)

section \<open>Flag updates are not echoed to the caller\<close>

lemma update_flags_step_objs:
  assumes "update_flags_step mbx selected flag_set mode (msg_seq, msg) (m, objs, results) = (m1, objs1, results1)"
      and "distinct (sessions m)"
  shows "objs1 sid =
     (if sid \<in> set (sessions m) \<and> sid \<noteq> selected
      then (objs sid)\<lparr>pending := pending (objs sid) @
              [Fetch msg_seq (persistent_flags (mailbox_update_flags mbx msg flag_set mode))],
            updated := True\<rparr>
      else objs sid)"
proof -
  from assms(1) have "objs1 = for_each_session
               (\<lambda>session_id session.
                  if session_id \<noteq> selected
                  then updated_set (add_fetch msg_seq
                         (persistent_flags (mailbox_update_flags mbx msg flag_set mode)) session)
                  else session)
               (sessions m) objs"
    by (simp add: update_flags_step_def Let_def)
  then show ?thesis
    by (simp add: for_each_session_apply[OF assms(2)] updated_set_def add_fetch_def)
qed

lemma update_flags_fold_objs:
  assumes "fold (update_flags_step mbx selected flag_set mode) ys (m, objs, results) = (m', objs', results')"
      and "distinct (sessions m)"
  shows "objs' sid =
     (if sid \<in> set (sessions m) \<and> sid \<noteq> selected \<and> ys \<noteq> []
      then (objs sid)\<lparr>pending := pending (objs sid) @
              map (\<lambda>p. Fetch (fst p) (persistent_flags (mailbox_update_flags mbx (snd p) flag_set mode))) ys,
            updated := True\<rparr>
      else objs sid)"
  using assms
proof (induction ys arbitrary: m objs results)
  case Nil
  then show ?case by simp
next
  case (Cons p rest)
  obtain msg_seq msg where p: "p = (msg_seq, msg)" by (cases p) auto
  obtain m1 objs1 results1 where
    st: "update_flags_step mbx selected flag_set mode (msg_seq, msg) (m, objs, results) = (m1, objs1, results1)"
    by (cases "update_flags_step mbx selected flag_set mode (msg_seq, msg) (m, objs, results)") auto
  from Cons.prems(1) st have
    f: "fold (update_flags_step mbx selected flag_set mode) rest (m1, objs1, results1) = (m', objs', results')"
    by (simp add: p)
  have ss: "sessions m1 = sessions m" by (rule update_flags_step_frame(3)[OF st])
  note o1 = update_flags_step_objs[OF st Cons.prems(2), of sid]
  note ih = Cons.IH[OF f Cons.prems(2)[folded ss], unfolded ss]
  show ?case
    unfolding ih o1 p by (cases "rest = []") auto
qed

text \<open>
  Claim C9. \<^verbatim>\<open>update_flags\<close> by a session with selection \<open>selected\<close> on a mailbox
  enqueues, for every message it processes, a \<^verbatim>\<open>Fetch(seq, new_flags)\<close> to every session
  registered on the mailbox other than \<open>selected\<close> and sets \<^verbatim>\<open>updated\<close> of that
  session. The object of the caller is left exactly as it was, and so is every object
  that is not registered on the mailbox. This holds as well for the messages processed
  before an index error ends the call.
\<close>

theorem update_flags_skips_caller:
  assumes "check_selected self_mailboxes s selected = Inr (mbx, selected)"
      and "mailboxes s (sel_name (selected_objs s selected)) = Some m"
      and "iter_messages mbx sequences = (ys, err)"
      and "distinct (sessions m)"
  shows "selected_objs (fst (update_flags self_mailboxes selected sequences flag_set mode s)) selected
           = selected_objs s selected
     \<and> (\<forall>sid. selected_objs (fst (update_flags self_mailboxes selected sequences flag_set mode s)) sid =
           (if sid \<in> set (sessions m) \<and> sid \<noteq> selected \<and> ys \<noteq> []
            then (selected_objs s sid)
                   \<lparr>pending := pending (selected_objs s sid) @
                      map (\<lambda>p. Fetch (fst p)
                             (persistent_flags (mailbox_update_flags mbx (snd p) flag_set mode))) ys,
                    updated := True\<rparr>
            else selected_objs s sid))"
proof -
  obtain m' objs' results where
    f: "fold (update_flags_step mbx selected flag_set mode) ys (m, selected_objs s, []) = (m', objs', results)"
    by (cases "fold (update_flags_step mbx selected flag_set mode) ys (m, selected_objs s, [])") auto
  have s': "selected_objs (fst (update_flags self_mailboxes selected sequences flag_set mode s)) = objs'"
    using assms(2)
    by (cases err) (simp_all add: update_flags_def assms(1,3) f Let_def)
  show ?thesis
    unfolding s' using update_flags_fold_objs[OF f assms(4)] by simp
qed

lemma ex_store_check:
  "check_selected [''INBOX'' \<mapsto> ex_view (ex_inbox sids)] (ex_state sids) 2
     = Inr (ex_view (ex_inbox sids), 2)"
  by (simp add: check_selected_def ex_state_def ex_selected_def Let_def)

lemma ex_store_iter:
  "iter_messages (ex_view (ex_inbox sids)) ex_seq2 = ([(2, ex_msg 102 {Deleted})], None)"
  by (simp add: iter_messages_def ex_seq2_def ex_view_def ex_inbox_def py_getitem_def)

theorem update_flags_skips_caller_witness:
  "pending (selected_objs (fst (update_flags [''INBOX'' \<mapsto> ex_view (ex_inbox [2, 3])] 2 ex_seq2
       {Seen} ADD (ex_state [2, 3]))) 3) = [Fetch 2 {Deleted, Seen}]
   \<and> updated (selected_objs (fst (update_flags [''INBOX'' \<mapsto> ex_view (ex_inbox [2, 3])] 2 ex_seq2
       {Seen} ADD (ex_state [2, 3]))) 3)
   \<and> pending (selected_objs (fst (update_flags [''INBOX'' \<mapsto> ex_view (ex_inbox [2, 3])] 2 ex_seq2
       {Seen} ADD (ex_state [2, 3]))) 2) = []
   \<and> \<not> updated (selected_objs (fst (update_flags [''INBOX'' \<mapsto> ex_view (ex_inbox [2, 3])] 2 ex_seq2
       {Seen} ADD (ex_state [2, 3]))) 2)"
proof -
  let ?S = "fst (update_flags [''INBOX'' \<mapsto> ex_view (ex_inbox [2, 3])] 2 ex_seq2
       {Seen} ADD (ex_state [2, 3]))"
  have m: "mailboxes (ex_state [2, 3]) (sel_name (selected_objs (ex_state [2, 3]) 2)) = Some (ex_inbox [2, 3])"
    by (simp add: ex_state_def ex_selected_def)
  have d: "distinct (sessions (ex_inbox [2, 3]))" by (simp add: ex_inbox_def)
  have o: "selected_objs (ex_state [2, 3]) sid = ex_selected ''INBOX''" for sid
    by (simp add: ex_state_def)
  have nf: "persistent_flags (mailbox_update_flags (ex_view (ex_inbox [2, 3])) (ex_msg 102 {Deleted}) {Seen} ADD)
      = {Deleted, Seen}"
    by (simp add: mailbox_update_flags_def ex_view_def ex_msg_sel)
  have ss: "sessions (ex_inbox [2, 3]) = [2, 3]" by (simp add: ex_inbox_def)
  note c = update_flags_skips_caller[OF ex_store_check m ex_store_iter d, of "{Seen}" ADD,
      unfolded o ss]
  from c have c2: "selected_objs ?S 2 = ex_selected ''INBOX''" by blast
  from c have "\<forall>sid. selected_objs ?S sid =
           (if sid \<in> set [2, 3] \<and> sid \<noteq> 2 \<and> [(2::nat, ex_msg 102 {Deleted})] \<noteq> []
            then (ex_selected ''INBOX'')
                   \<lparr>pending := pending (ex_selected ''INBOX'') @
                      map (\<lambda>p. Fetch (fst p)
                             (persistent_flags (mailbox_update_flags (ex_view (ex_inbox [2, 3])) (snd p)
                                {Seen} ADD))) [(2, ex_msg 102 {Deleted})],
                    updated := True\<rparr>
            else ex_selected ''INBOX'')"
    by blast
  from this[rule_format, of 3] have c3: "selected_objs ?S 3 =
      (ex_selected ''INBOX'')\<lparr>pending := [Fetch 2 {Deleted, Seen}], updated := True\<rparr>"
    by (simp add: nf) (simp add: ex_selected_def)
  show ?thesis
    unfolding c2 c3 by (simp add: ex_selected_def)
qed

section \<open>Gating of commands\<close>

text \<open>
  Claim C2, as amended. \<^verbatim>\<open>do_command\<close> tests three gates in order. A command of the
  class NonAuth on a connection with a session is answered by a tagged BAD
  "Already authenticated."; a command of the class Auth on a connection without a
  session by a tagged BAD "Must authenticate first."; and where neither of these two
  gates applies, a command of the class Select on a connection without a selection by a
  tagged BAD "Must select a mailbox first.". In all three cases the connection is left
  as it was and the answer is the same whatever the table of handlers holds: no handler
  is invoked.
\<close>

theorem do_command_gating:
  "(cs_session cs \<noteq> None \<and> is_CommandNonAuth cmd \<longrightarrow>
      do_command handlers poll cs cmd =
        (cs, Inr (ResponseBad (cmd_tag cmd) (cmd_command cmd @ '': Already authenticated.''))))
   \<and> (cs_session cs = None \<and> is_CommandAuth cmd \<longrightarrow>
      do_command handlers poll cs cmd =
        (cs, Inr (ResponseBad (cmd_tag cmd) (cmd_command cmd @ '': Must authenticate first.''))))
   \<and> (cs_selected cs = None \<and> is_CommandSelect cmd
        \<and> \<not> (cs_session cs \<noteq> None \<and> is_CommandNonAuth cmd)
        \<and> \<not> (cs_session cs = None \<and> is_CommandAuth cmd) \<longrightarrow>
      do_command handlers poll cs cmd =
        (cs, Inr (ResponseBad (cmd_tag cmd) (cmd_command cmd @ '': Must select a mailbox first.''))))"
  by (auto simp: do_command_def)

theorem do_command_gating_witness:
  "do_command Map.empty ex_no_updates (ex_conn (Some ()) None) (ex_cmd ''a4'' ''LOGIN'' True False False)
     = (ex_conn (Some ()) None, Inr (ResponseBad ''a4'' ''LOGIN: Already authenticated.''))
   \<and> do_command Map.empty ex_no_updates (ex_conn None None) (ex_cmd ''a1'' ''SELECT'' False True False)
     = (ex_conn None None, Inr (ResponseBad ''a1'' ''SELECT: Must authenticate first.''))
   \<and> do_command Map.empty ex_no_updates (ex_conn (Some ()) None) (ex_cmd ''a5'' ''FETCH'' False True True)
     = (ex_conn (Some ()) None, Inr (ResponseBad ''a5'' ''FETCH: Must select a mailbox first.''))"
  using do_command_gating[of "ex_conn (Some ()) None" "ex_cmd ''a4'' ''LOGIN'' True False False"
          Map.empty ex_no_updates]
        do_command_gating[of "ex_conn None None" "ex_cmd ''a1'' ''SELECT'' False True False"
          Map.empty ex_no_updates]
        do_command_gating[of "ex_conn (Some ()) None" "ex_cmd ''a5'' ''FETCH'' False True True"
          Map.empty ex_no_updates]
  by (simp add: ex_conn_def ex_cmd_def)

text \<open>
  A FETCH command whose object is an instance of the class Auth as well as of the class
  Select (as an object of a subclass is), on a fresh connection: no mailbox is selected
  and the command is a Select command, yet the answer is "Must authenticate first.".
\<close>

theorem do_command_gating_counterexample:
  "cs_selected (ex_conn None None) = None
   \<and> is_CommandSelect (ex_cmd ''a1'' ''FETCH'' False True True)
   \<and> snd (do_command Map.empty ex_no_updates (ex_conn None None) (ex_cmd ''a1'' ''FETCH'' False True True))
       = Inr (ResponseBad ''a1'' ''FETCH: Must authenticate first.'')
   \<and> snd (do_command Map.empty ex_no_updates (ex_conn None None) (ex_cmd ''a1'' ''FETCH'' False True True))
       \<noteq> Inr (ResponseBad ''a1'' ''FETCH: Must select a mailbox first.'')"
  by (simp add: do_command_def ex_conn_def ex_cmd_def ResponseBad_def)

section \<open>LIST, rename and delete\<close>

lemma fold_add_list:
  "fold (\<lambda>mbx resp. if mailbox_matches (entry_name mbx) (entry_sep mbx) r f
                     then add_data (g mbx) resp else resp) mbxs resp0
     = resp0\<lparr>resp_data := resp_data resp0 @ map g mbxs\<rparr>"
  by (induction mbxs arbitrary: resp0) (simp_all add: mailbox_matches_def add_data_def)

text \<open>
  Claim C6, as amended. The response to LIST, and to LSUB, names every mailbox that
  \<^verbatim>\<open>list_mailboxes\<close> returns, in the order returned, whatever the reference name and the
  filter of the command are: \<^verbatim>\<open>_mailbox_matches\<close> answers true for every name.
\<close>

theorem do_list_names_every_mailbox:
  "do_list mailbox_list cmd =
     \<lparr>resp_condition = OK, resp_tag = cmd_tag cmd, resp_text = ''LIST completed.'',
      resp_data = map (\<lambda>mbx. ListResponse (entry_name mbx) (entry_sep mbx) (entry_recent mbx \<noteq> 0))
                    mailbox_list\<rparr>
   \<and> do_lsub mailbox_list cmd =
     \<lparr>resp_condition = OK, resp_tag = cmd_tag cmd, resp_text = ''LSUB completed.'',
      resp_data = map (\<lambda>mbx. LSubResponse (entry_name mbx) (entry_sep mbx)) mailbox_list\<rparr>"
  by (simp add: do_list_def do_lsub_def fold_add_list ResponseOk_def)

text \<open>
  LIST with the filter Sent on the three mailboxes of the test suite: INBOX and Trash do
  not match the pattern, yet all three names are in the response.
\<close>

theorem do_list_counterexample:
  "resp_data (do_list ex_entries ex_list_cmd) =
     [ListResponse ''INBOX'' (CHR ''.'') True, ListResponse ''Sent'' (CHR ''.'') False,
      ListResponse ''Trash'' (CHR ''.'') False]
   \<and> filter (\<lambda>mbx. spec_mailbox_matches (entry_name mbx) (entry_sep mbx)
                  (cmd_ref_name ex_list_cmd) (cmd_filter ex_list_cmd)) ex_entries
       = [\<lparr>entry_name = ''Sent'', entry_sep = CHR ''.'', entry_recent = 0\<rparr>]"
  by (simp add: do_list_def ex_entries_def ex_list_cmd_def ex_cmd_def mailbox_matches_def add_data_def
      ResponseOk_def spec_mailbox_matches_def)

text \<open>
  Claim C7, on the code. Renaming INBOX moves the entry of the registry to the new name:
  the messages are under the new name afterwards, and INBOX is no longer a mailbox.
\<close>

theorem rename_inbox_removes_inbox:
  "snd (rename_mailbox ''INBOX'' ''Archive'' None (ex_state [])) = Inr None
   \<and> mailboxes (fst (rename_mailbox ''INBOX'' ''Archive'' None (ex_state []))) ''Archive''
       = Some (ex_inbox [])
   \<and> mailboxes (fst (rename_mailbox ''INBOX'' ''Archive'' None (ex_state []))) ''INBOX'' = None"
  by (simp add: rename_mailbox_def ex_state_def get_updates_def Let_def)

text \<open>
  Claim C8, on the code. \<^verbatim>\<open>delete_mailbox\<close> never raises \<^verbatim>\<open>MailboxHasChildren\<close>: with
  the mailboxes Sent and Sent.Old in the registry, deleting Sent returns normally and
  removes Sent, and Sent.Old stays.
\<close>

theorem delete_mailbox_with_children:
  "snd (delete_mailbox self_mailboxes name selected s) \<noteq> Inl (MailboxHasChildren x)
   \<and> mailboxes ex_state3 ''Sent'' \<noteq> None
   \<and> mailboxes ex_state3 (''Sent'' @ [CHR ''.''] @ ''Old'') \<noteq> None
   \<and> snd (delete_mailbox Map.empty ''Sent'' None ex_state3) = Inr None
   \<and> mailboxes (fst (fst (delete_mailbox Map.empty ''Sent'' None ex_state3))) ''Sent'' = None
   \<and> mailboxes (fst (fst (delete_mailbox Map.empty ''Sent'' None ex_state3))) ''Sent.Old'' \<noteq> None"
  by (simp add: delete_mailbox_def ex_state3_def get_updates_def Let_def)

section \<open>Status attributes\<close>

lemma upper_char_idem: "upper_char (upper_char c) = upper_char c"
proof -
  have "of_char (char_of (of_char c - 32 :: nat)) = (of_char c - 32 :: nat)"
    if "97 \<le> (of_char c :: nat)" "(of_char c :: nat) \<le> 122"
    using that by simp
  then show ?thesis
    by (auto simp: upper_char_def Let_def)
qed

lemma bytes_upper_idem: "bytes_upper (bytes_upper bs) = bytes_upper bs"
  by (simp add: bytes_upper_def upper_char_idem)







end
